theory Spec2Isabelle
  imports Main "HOL-Library.Word" "HOL-Library.AList" "HOL-Library.Log_Nat"
begin

section \<open>Go integer arithmetic and panics\<close>

text \<open>
  A run-time panic of the Go program is a value: every operation that can panic returns
  \<open>panic + 'a\<close>, with \<open>Inl\<close> for the panic.
\<close>

datatype panic =
    IndexOutOfRange
  | MakeLenOutOfRange
  | DivideByZero
  | MakeChanSizeOutOfRange
  | SendOnClosedChannel

text \<open>Go's \<open>/\<close> and \<open>%\<close> on integers truncate towards zero.\<close>

definition go_div :: "int \<Rightarrow> int \<Rightarrow> int" where
  "go_div a b = sgn a * sgn b * (\<bar>a\<bar> div \<bar>b\<bar>)"

definition go_mod :: "int \<Rightarrow> int \<Rightarrow> int" where
  "go_mod a b = a - b * go_div a b"

text \<open>Conversion to \<open>int32\<close> and \<open>int64\<close> keeps the low bits, read in two's complement.\<close>

definition wrap_i32 :: "int \<Rightarrow> int" where
  "wrap_i32 x = (x + 2 ^ 31) mod 2 ^ 32 - 2 ^ 31"

definition wrap_i64 :: "int \<Rightarrow> int" where
  "wrap_i64 x = (x + 2 ^ 63) mod 2 ^ 64 - 2 ^ 63"

section \<open>float64\<close>

text \<open>
  A finite \<open>float64\<close> is the rational number it denotes. \<open>f64\<close> rounds a rational to
  the nearest number with a 53-bit significand, ties to even, as IEEE 754 arithmetic and
  Go's conversion of constants do. The exponent is not bounded: every value the program
  computes with these operations is zero or lies in the range of the normal numbers. No
  division here has a zero divisor (the source guards each one), so infinities and NaN
  do not arise.
\<close>

type_synonym float64 = rat

definition round_half_even :: "rat \<Rightarrow> int" where
  "round_half_even y =
     (let f = \<lfloor>y\<rfloor>; d = y - of_int f
      in if d < 1 / 2 then f else if 1 / 2 < d then f + 1 else if even f then f else f + 1)"

text \<open>\<open>binade x\<close> is the exponent \<open>e\<close> with \<open>2\<^sup>e \<le> \<bar>x\<bar> < 2\<^sup>e\<^sup>+\<^sup>1\<close>, for \<open>x \<noteq> 0\<close>.\<close>

definition binade :: "rat \<Rightarrow> int" where
  "binade x =
     (let a = \<bar>x\<bar>
      in if 1 \<le> a then bitlen \<lfloor>a\<rfloor> - 1 else - bitlen (\<lceil>1 / a\<rceil> - 1))"

definition f64 :: "rat \<Rightarrow> float64" where
  "f64 x =
     (if x = 0 then 0
      else let u = 2 powi (binade x - 52) in of_int (round_half_even (x / u)) * u)"

definition f64_of_int :: "int \<Rightarrow> float64" where
  "f64_of_int i = f64 (of_int i)"

definition f64_div :: "float64 \<Rightarrow> float64 \<Rightarrow> float64" where
  "f64_div a b = f64 (a / b)"

definition f64_mul :: "float64 \<Rightarrow> float64 \<Rightarrow> float64" where
  "f64_mul a b = f64 (a * b)"

section \<open>Message (internal/core/message.go)\<close>

datatype json =
    JNull
  | JBool bool
  | JNumber int
  | JString string
  | JArray "json list"
  | JObject "(string \<times> json) list"

text \<open>
  The field \<open>Id\<close> of the struct is \<open>Id_msg\<close>; \<open>Timestamp\<close> is the ingress time in
  nanoseconds; \<open>Data\<close>, a JSON object, is the list of its members.
\<close>

record Message =
  Id_msg :: string
  Topic :: string
  TenantID :: string
  Data :: "(string \<times> json) list"
  Timestamp :: int

text \<open>The zero value of the struct, with which \<open>make([]Message, size)\<close> fills a slice.\<close>

definition zeroMessage :: Message where
  "zeroMessage = \<lparr>Id_msg = [], Topic = [], TenantID = [], Data = [], Timestamp = 0\<rparr>"

section \<open>RecentMessageCache (internal/core/recent_cache.go)\<close>

text \<open>
  The fields \<open>size\<close>, \<open>index\<close> and \<open>count\<close> of the struct carry the suffix \<open>_rc\<close>.
  Go's \<open>int\<close> is modelled as \<open>int\<close>: the three fields are bounded by the length of the
  slice, so no operation on them overflows.
\<close>

record RecentMessageCache =
  messages :: "Message list"
  size_rc :: int
  index_rc :: int
  count_rc :: int

definition NewRecentMessageCache :: "int \<Rightarrow> panic + RecentMessageCache" where
  "NewRecentMessageCache n =
     (if n < 0 then Inl MakeLenOutOfRange
      else Inr \<lparr>messages = replicate (nat n) zeroMessage, size_rc = n, index_rc = 0, count_rc = 0\<rparr>)"

definition Add :: "RecentMessageCache \<Rightarrow> Message \<Rightarrow> panic + RecentMessageCache" where
  "Add c msg =
     (if \<not> (0 \<le> index_rc c \<and> index_rc c < int (length (messages c))) then Inl IndexOutOfRange
      else if size_rc c = 0 then Inl DivideByZero
      else
        let c1 = c\<lparr>messages := (messages c)[nat (index_rc c) := msg]\<rparr>;
            c2 = c1\<lparr>index_rc := go_mod (index_rc c1 + 1) (size_rc c1)\<rparr>
        in Inr (if count_rc c2 < size_rc c2 then c2\<lparr>count_rc := count_rc c2 + 1\<rparr> else c2))"

text \<open>
  The copying loop of \<open>GetLast\<close>: \<open>for i := 0; i < n; i++\<close>, here with the number of
  iterations still to run as the last argument.
\<close>

fun GetLast_loop :: "RecentMessageCache \<Rightarrow> int \<Rightarrow> int \<Rightarrow> nat \<Rightarrow> panic + Message list" where
  "GetLast_loop c startPost i 0 = Inr []"
| "GetLast_loop c startPost i (Suc k) =
     (let pos = go_mod (startPost + i) (size_rc c)
      in if \<not> (0 \<le> pos \<and> pos < int (length (messages c))) then Inl IndexOutOfRange
         else case GetLast_loop c startPost (i + 1) k of
                Inl p \<Rightarrow> Inl p
              | Inr rest \<Rightarrow> Inr (messages c ! nat pos # rest))"

definition GetLast :: "RecentMessageCache \<Rightarrow> int \<Rightarrow> panic + Message list" where
  "GetLast c n0 =
     (let n = (if n0 > count_rc c then count_rc c else n0)
      in if n = 0 then Inr []
         else if n < 0 then Inl MakeLenOutOfRange
         else if size_rc c = 0 then Inl DivideByZero
         else GetLast_loop c (go_mod (index_rc c - n + size_rc c) (size_rc c)) 0 (nat n))"

definition GetAll :: "RecentMessageCache \<Rightarrow> panic + Message list" where
  "GetAll c = GetLast c (count_rc c)"

definition Clear :: "RecentMessageCache \<Rightarrow> RecentMessageCache" where
  "Clear c = c\<lparr>index_rc := 0, count_rc := 0\<rparr>"

definition GetCount :: "RecentMessageCache \<Rightarrow> int" where
  "GetCount c = count_rc c"

text \<open>A sequence of \<open>Add\<close> calls, stopping at the first panic.\<close>

fun add_all :: "RecentMessageCache \<Rightarrow> Message list \<Rightarrow> panic + RecentMessageCache" where
  "add_all c [] = Inr c"
| "add_all c (m # ms) = (case Add c m of Inl p \<Rightarrow> Inl p | Inr c' \<Rightarrow> add_all c' ms)"

text \<open>Any interleaving of \<open>Add\<close> and \<open>Clear\<close> calls, stopping at the first panic.\<close>

datatype cache_op = OpAdd Message | OpClear

fun apply_ops :: "RecentMessageCache \<Rightarrow> cache_op list \<Rightarrow> panic + RecentMessageCache" where
  "apply_ops c [] = Inr c"
| "apply_ops c (OpAdd m # ops) = (case Add c m of Inl p \<Rightarrow> Inl p | Inr c' \<Rightarrow> apply_ops c' ops)"
| "apply_ops c (OpClear # ops) = apply_ops (Clear c) ops"

text \<open>
  The ring-buffer invariant that relates a cache of capacity \<open>N\<close> to \<open>hist\<close>, the
  messages added since it was created or cleared, oldest first: the slot \<open>j\<close> places
  behind \<open>index\<close> holds the \<open>j\<close>-th most recent message.
\<close>

definition ring_inv :: "int \<Rightarrow> RecentMessageCache \<Rightarrow> Message list \<Rightarrow> bool" where
  "ring_inv N c hist \<longleftrightarrow>
     0 < N \<and> size_rc c = N \<and> int (length (messages c)) = N \<and>
     index_rc c = int (length hist) mod N \<and>
     count_rc c = min (int (length hist)) N \<and>
     (\<forall>j < length hist. int j < N \<longrightarrow>
        messages c ! nat ((int (length hist) - 1 - int j) mod N) = hist ! (length hist - 1 - j))"

text \<open>The bounds that every operation of the cache keeps.\<close>

definition cache_wf :: "RecentMessageCache \<Rightarrow> bool" where
  "cache_wf c \<longleftrightarrow>
     size_rc c = int (length (messages c)) \<and> 0 \<le> index_rc c \<and>
     0 \<le> count_rc c \<and> count_rc c \<le> size_rc c"

section \<open>Subscriber (internal/core/subscriber.go)\<close>

text \<open>
  \<open>DropStrategy\<close> is an \<open>int\<close> in the source; \<open>UNKNOWN_STRATEGY\<close> stands for every value
  other than the three constants, which the \<open>default\<close> branch of \<open>handleBackPressure\<close>
  handles.
\<close>

datatype DropStrategy = DROP_OLDEST | DROP_NEWEST | CIRCUIT_BREAKER | UNKNOWN_STRATEGY

text \<open>The errors that \<open>SendMessages\<close> returns, one per \<open>fmt.Errorf\<close> of the source.\<close>

datatype send_error =
    BufferStillFull
  | BufferFullDroppedNew
  | CircuitBreakerTriggered
  | UnknownDropStrategy

text \<open>
  The buffered channel \<open>messageChan\<close> is the list of the messages it holds, oldest first,
  with its capacity \<open>chanCap\<close>. The three \<open>atomic.Int64\<close> counters are 64-bit words:
  \<open>Add(1)\<close> wraps, and comparisons read them signed. The struct's fields \<open>TenantID\<close>
  and \<open>Topic\<close> are \<open>SubTenantID\<close> and \<open>SubTopic\<close> (the names are taken by \<open>Message\<close>).
  \<open>isClosed\<close> holds once the body of \<open>closeOnce\<close> has run: the context is cancelled, and
  \<open>done\<close>, the connection and \<open>messageChan\<close> are closed. Times are in nanoseconds.
\<close>

record Subscriber =
  ID :: string
  SubTenantID :: string
  SubTopic :: string
  messageChan :: "Message list"
  chanCap :: nat
  dropStrategy :: DropStrategy
  droppedCount :: "64 word"
  messagesRecieved :: "64 word"
  messagesSent :: "64 word"
  lastActive :: int
  isClosed :: bool

definition NewSubscriber :: "string \<Rightarrow> string \<Rightarrow> string \<Rightarrow> int \<Rightarrow> int \<Rightarrow> panic + Subscriber" where
  "NewSubscriber sid tenantID topic bufferSize now =
     (if bufferSize < 0 then Inl MakeChanSizeOutOfRange
      else Inr \<lparr>ID = sid, SubTenantID = tenantID, SubTopic = topic,
                messageChan = [], chanCap = nat bufferSize,
                dropStrategy = DROP_OLDEST,
                droppedCount = 0, messagesRecieved = 0, messagesSent = 0,
                lastActive = now, isClosed = False\<rparr>)"

definition Close :: "Subscriber \<Rightarrow> Subscriber" where
  "Close s = (if isClosed s then s else s\<lparr>isClosed := True\<rparr>)"

text \<open>
  \<open>handleBackPressure\<close>, run from its first statement to its return with no operation
  of another goroutine in between (the interleaved reading follows below). In \<open>DROP_OLDEST\<close> the first \<open>select\<close> receives
  when the channel holds a message (a closed channel also yields a receive, of the zero
  value), and the second \<open>select\<close> sends when there is room; a send on a closed channel
  panics.
\<close>

definition handleBackPressure :: "Subscriber \<Rightarrow> Message \<Rightarrow> panic + (Subscriber \<times> send_error option)" where
  "handleBackPressure s msg =
     (case dropStrategy s of
        DROP_OLDEST \<Rightarrow>
          (let s1 = (case messageChan s of
                       m # rest \<Rightarrow> s\<lparr>messageChan := rest, droppedCount := droppedCount s + 1\<rparr>
                     | [] \<Rightarrow> if isClosed s then s\<lparr>droppedCount := droppedCount s + 1\<rparr> else s)
           in if isClosed s1 then Inl SendOnClosedChannel
              else if length (messageChan s1) < chanCap s1
                then Inr (s1\<lparr>messageChan := messageChan s1 @ [msg]\<rparr>, None)
              else Inr (s1\<lparr>droppedCount := droppedCount s1 + 1\<rparr>, Some BufferStillFull))
      | DROP_NEWEST \<Rightarrow>
          Inr (s\<lparr>droppedCount := droppedCount s + 1\<rparr>, Some BufferFullDroppedNew)
      | CIRCUIT_BREAKER \<Rightarrow>
          (let dropped = droppedCount s
           in if 100 <s dropped then Inr (Close s, Some CircuitBreakerTriggered)
              else Inr (s, None))
      | UNKNOWN_STRATEGY \<Rightarrow>
          Inr (s\<lparr>droppedCount := droppedCount s + 1\<rparr>, Some UnknownDropStrategy))"

definition SendMessages :: "Subscriber \<Rightarrow> Message \<Rightarrow> panic + (Subscriber \<times> send_error option)" where
  "SendMessages s msg =
     (let s1 = s\<lparr>messagesRecieved := messagesRecieved s + 1\<rparr>
      in if isClosed s1 then Inl SendOnClosedChannel
         else if length (messageChan s1) < chanCap s1
           then Inr (s1\<lparr>messageChan := messageChan s1 @ [msg]\<rparr>, None)
         else handleBackPressure s1 msg)"

text \<open>
  \<open>SendMessages\<close> and \<open>handleBackPressure\<close> above run a call from its first statement to
  its return with nothing in between. The goroutines of the program interleave, so the
  same two functions are also given operation by operation. A call stands at one of the
  control points of \<open>send_pc\<close>:
  \<^item> \<open>SendStart\<close>: before \<open>s.messagesRecieved.Add(1)\<close> (line 61);
  \<^item> \<open>TrySend\<close>: at the \<open>select\<close> of \<open>SendMessages\<close> (lines 63-68), whose \<open>default\<close>
    enters \<open>handleBackPressure\<close> and its \<open>switch\<close>;
  \<^item> \<open>BP_Recv\<close>: at the first \<open>select\<close> of \<open>DROP_OLDEST\<close> (lines 74-78);
  \<^item> \<open>BP_CountOldest\<close>: a value has been received, before \<open>s.droppedCount.Add(1)\<close>
    (line 76);
  \<^item> \<open>BP_Resend\<close>: at the second \<open>select\<close> (lines 80-86);
  \<^item> \<open>BP_CountNew e\<close>: before the \<open>s.droppedCount.Add(1)\<close> that the return of the error
    \<open>e\<close> follows (lines 84, 89 and 101);
  \<^item> \<open>CB_Load\<close>: before \<open>s.droppedCount.Load()\<close> (line 93);
  \<^item> \<open>CB_Loaded d\<close>: at \<open>if dropped > 100\<close> with the loaded value \<open>d\<close> (line 94);
  \<^item> \<open>SendDone r\<close>: the call has returned \<open>r\<close>.

  \<open>send_op s pc msg\<close> executes the operation at \<open>pc\<close> on the subscriber \<open>s\<close>: it is
  \<open>None\<close> when the call has returned, a panic, or the new subscriber and control point.
\<close>

datatype send_pc =
    SendStart
  | TrySend
  | BP_Recv
  | BP_CountOldest
  | BP_Resend
  | BP_CountNew send_error
  | CB_Load
  | CB_Loaded "64 word"
  | SendDone "send_error option"

definition send_op :: "Subscriber \<Rightarrow> send_pc \<Rightarrow> Message \<Rightarrow> (panic + Subscriber \<times> send_pc) option" where
  "send_op s pc msg =
     (case pc of
        SendStart \<Rightarrow> Some (Inr (s\<lparr>messagesRecieved := messagesRecieved s + 1\<rparr>, TrySend))
      | TrySend \<Rightarrow>
          (if isClosed s then Some (Inl SendOnClosedChannel)
           else if length (messageChan s) < chanCap s
             then Some (Inr (s\<lparr>messageChan := messageChan s @ [msg]\<rparr>, SendDone None))
           else Some (Inr (s, case dropStrategy s of
                                DROP_OLDEST \<Rightarrow> BP_Recv
                              | DROP_NEWEST \<Rightarrow> BP_CountNew BufferFullDroppedNew
                              | CIRCUIT_BREAKER \<Rightarrow> CB_Load
                              | UNKNOWN_STRATEGY \<Rightarrow> BP_CountNew UnknownDropStrategy)))
      | BP_Recv \<Rightarrow>
          (case messageChan s of
             m # rest \<Rightarrow> Some (Inr (s\<lparr>messageChan := rest\<rparr>, BP_CountOldest))
           | [] \<Rightarrow> if isClosed s then Some (Inr (s, BP_CountOldest)) else Some (Inr (s, BP_Resend)))
      | BP_CountOldest \<Rightarrow> Some (Inr (s\<lparr>droppedCount := droppedCount s + 1\<rparr>, BP_Resend))
      | BP_Resend \<Rightarrow>
          (if isClosed s then Some (Inl SendOnClosedChannel)
           else if length (messageChan s) < chanCap s
             then Some (Inr (s\<lparr>messageChan := messageChan s @ [msg]\<rparr>, SendDone None))
           else Some (Inr (s, BP_CountNew BufferStillFull)))
      | BP_CountNew e \<Rightarrow> Some (Inr (s\<lparr>droppedCount := droppedCount s + 1\<rparr>, SendDone (Some e)))
      | CB_Load \<Rightarrow> Some (Inr (s, CB_Loaded (droppedCount s)))
      | CB_Loaded dropped \<Rightarrow>
          (if 100 <s dropped then Some (Inr (Close s, SendDone (Some CircuitBreakerTriggered)))
           else Some (Inr (s, SendDone None)))
      | SendDone r \<Rightarrow> None)"

text \<open>
  A call run alone: its operations one after the other, with no operation of another
  goroutine in between. The fuel bounds the number of operations.
\<close>

fun send_run :: "nat \<Rightarrow> Subscriber \<Rightarrow> send_pc \<Rightarrow> Message \<Rightarrow> (panic + Subscriber \<times> send_error option) option" where
  "send_run 0 s pc msg = None"
| "send_run (Suc n) s pc msg =
     (case pc of
        SendDone r \<Rightarrow> Some (Inr (s, r))
      | _ \<Rightarrow> (case send_op s pc msg of
                None \<Rightarrow> None
              | Some (Inl p) \<Rightarrow> Some (Inl p)
              | Some (Inr (s', pc')) \<Rightarrow> send_run n s' pc' msg))"

text \<open>
  \<open>sendLoop\<close>, operation by operation. Its control points are
  \<^item> \<open>LoopSelect\<close>: at the \<open>select\<close> (line 110), also before the goroutine has started;
  \<^item> \<open>LoopWriting msg\<close>: \<open>msg\<close> has been received from the channel and \<open>sendToClient\<close>,
    which can take up to 10 seconds, has not returned (line 116);
  \<^item> \<open>LoopWrote\<close>: the write has returned \<open>nil\<close>, before \<open>s.messagesSent.Add(1)\<close>
    (line 120);
  \<^item> \<open>LoopCounted\<close>: before \<open>s.lastActive = time.Now()\<close> (line 121);
  \<^item> \<open>LoopWriteFailed\<close>: the write has returned an error, before \<open>s.Close()\<close> (line 117);
  \<^item> \<open>LoopPingFailed\<close>: the ping has returned an error, before \<open>s.Close()\<close> (line 128);
  \<^item> \<open>LoopReturned lost\<close>: the goroutine has returned, \<open>lost\<close> telling whether it did so
    at line 118, after a write that failed.

  The event names what happens next: at the \<open>select\<close> the case that is taken
  (\<open>RecvMsg\<close>, \<open>TickPing ok\<close> with the outcome of the ping, \<open>DoneClosed\<close>, \<open>CtxDone\<close>);
  \<open>WriteEnds ok\<close> is the return of \<open>sendToClient\<close>; \<open>Proceed\<close> is the next statement.
  The context can be cancelled from outside at any time and the transport can fail at
  any time, so \<open>CtxDone\<close> and both outcomes of a write or ping are always possible. The
  result is \<open>None\<close> when the event is not possible at that control point.
\<close>

datatype loop_pc =
    LoopSelect
  | LoopWriting Message
  | LoopWrote
  | LoopCounted
  | LoopWriteFailed
  | LoopPingFailed
  | LoopReturned bool

datatype loop_event = RecvMsg | WriteEnds bool | Proceed | TickPing bool | DoneClosed | CtxDone

definition loop_op :: "Subscriber \<Rightarrow> loop_pc \<Rightarrow> loop_event \<Rightarrow> int \<Rightarrow> (Subscriber \<times> loop_pc) option" where
  "loop_op s lp ev now =
     (case lp of
        LoopSelect \<Rightarrow>
          (case ev of
             RecvMsg \<Rightarrow>
               (case messageChan s of
                  [] \<Rightarrow> if isClosed s then Some (s, LoopReturned False) else None
                | msg # rest \<Rightarrow> Some (s\<lparr>messageChan := rest\<rparr>, LoopWriting msg))
           | TickPing ok \<Rightarrow> Some (s, if ok then LoopSelect else LoopPingFailed)
           | DoneClosed \<Rightarrow> if isClosed s then Some (s, LoopReturned False) else None
           | CtxDone \<Rightarrow> Some (s, LoopReturned False)
           | WriteEnds ok \<Rightarrow> None
           | Proceed \<Rightarrow> None)
      | LoopWriting msg \<Rightarrow>
          (case ev of
             WriteEnds ok \<Rightarrow> Some (s, if ok then LoopWrote else LoopWriteFailed)
           | _ \<Rightarrow> None)
      | LoopWrote \<Rightarrow>
          (case ev of
             Proceed \<Rightarrow> Some (s\<lparr>messagesSent := messagesSent s + 1\<rparr>, LoopCounted)
           | _ \<Rightarrow> None)
      | LoopCounted \<Rightarrow>
          (case ev of Proceed \<Rightarrow> Some (s\<lparr>lastActive := now\<rparr>, LoopSelect) | _ \<Rightarrow> None)
      | LoopWriteFailed \<Rightarrow>
          (case ev of Proceed \<Rightarrow> Some (Close s, LoopReturned True) | _ \<Rightarrow> None)
      | LoopPingFailed \<Rightarrow>
          (case ev of Proceed \<Rightarrow> Some (Close s, LoopReturned False) | _ \<Rightarrow> None)
      | LoopReturned lost \<Rightarrow> None)"

text \<open>
  \<open>sendRecentMessages\<close> after its \<open>GetLast(50)\<close>, operation by operation: \<open>ReplayNext ms\<close>
  is the head of the \<open>for\<close> with the messages \<open>ms\<close> still to send, \<open>ReplaySending pc msg ms\<close>
  is inside the call \<open>sub.SendMessages(msg)\<close> at \<open>pc\<close>, and \<open>ReplayReturned r\<close> is after
  the return: at line 79 with the error \<open>e\<close> of the call when \<open>r = Some e\<close>, at the end of
  the \<open>for\<close> when \<open>r = None\<close>.
\<close>

datatype replay_pc =
    ReplayNext "Message list"
  | ReplaySending send_pc Message "Message list"
  | ReplayReturned "send_error option"

text \<open>
  One subscriber with the goroutines that act on it: its \<open>sendLoop\<close>, the calls of
  \<open>SendMessages\<close> that the goroutines of \<open>Topic.Publish\<close> have begun (\<open>sys_sends\<close>, each
  with its control point and message), and the replay of \<open>Topic.Subscribe\<close>.
  \<open>replay_log\<close> is a history variable: the messages that the replay has put into the
  channel, in order.
\<close>

record System =
  sys_sub :: Subscriber
  sys_loop :: loop_pc
  sys_sends :: "(send_pc \<times> Message) list"
  sys_replay :: replay_pc
  replay_log :: "Message list"

text \<open>
  Go hands the value of a send directly to a receiver that is parked on the channel; on
  a channel of capacity 0 this is the only way a send succeeds. \<open>sendLoop\<close> is the only
  receiver that parks (the receive of \<open>handleBackPressure\<close> has a \<open>default\<close>), and it
  parks in its \<open>select\<close> when the channel is empty and open. \<open>hand_off_ready sys pc\<close>
  tells whether a call at \<open>pc\<close> can hand its message to \<open>sendLoop\<close> if it is parked.
\<close>

definition hand_off_ready :: "System \<Rightarrow> send_pc \<Rightarrow> bool" where
  "hand_off_ready sys pc \<longleftrightarrow>
     (pc = TrySend \<or> pc = BP_Resend) \<and> \<not> isClosed (sys_sub sys) \<and>
     messageChan (sys_sub sys) = [] \<and> sys_loop sys = LoopSelect"

text \<open>
  The steps of the system: \<open>EvPublish msg\<close> begins a call \<open>SendMessages(msg)\<close> of the
  fan-out; \<open>EvSend i\<close> executes the next operation of the \<open>i\<close>-th call and
  \<open>EvSendHandOff i\<close> hands its message to the parked \<open>sendLoop\<close>; \<open>EvReplay\<close> and
  \<open>EvReplayHandOff\<close> are the same for the replay; \<open>EvLoop ev now\<close> is an operation of
  \<open>sendLoop\<close> at the time \<open>now\<close>; \<open>EvClose\<close> is \<open>Close\<close> called by \<open>Topic.Unsubscribe\<close> or
  \<open>TopicManager.ShutDown\<close>. A step is \<open>None\<close> when it is not possible, or panics (which
  ends the process).
\<close>

datatype sys_event =
    EvPublish Message
  | EvSend nat
  | EvSendHandOff nat
  | EvReplay
  | EvReplayHandOff
  | EvLoop loop_event int
  | EvClose

definition enqueues :: "send_pc \<Rightarrow> send_pc \<Rightarrow> bool" where
  "enqueues pc pc' \<longleftrightarrow> (pc = TrySend \<or> pc = BP_Resend) \<and> pc' = SendDone None"

definition replay_step :: "System \<Rightarrow> System option" where
  "replay_step sys =
     (case sys_replay sys of
        ReplayNext [] \<Rightarrow> Some (sys\<lparr>sys_replay := ReplayReturned None\<rparr>)
      | ReplayNext (msg # ms) \<Rightarrow> Some (sys\<lparr>sys_replay := ReplaySending SendStart msg ms\<rparr>)
      | ReplaySending pc msg ms \<Rightarrow>
          (case pc of
             SendDone None \<Rightarrow> Some (sys\<lparr>sys_replay := ReplayNext ms\<rparr>)
           | SendDone (Some e) \<Rightarrow> Some (sys\<lparr>sys_replay := ReplayReturned (Some e)\<rparr>)
           | _ \<Rightarrow>
               (case send_op (sys_sub sys) pc msg of
                  Some (Inr (s', pc')) \<Rightarrow>
                    Some (sys\<lparr>sys_sub := s', sys_replay := ReplaySending pc' msg ms,
                               replay_log := (if enqueues pc pc' then replay_log sys @ [msg]
                                              else replay_log sys)\<rparr>)
                | _ \<Rightarrow> None))
      | ReplayReturned r \<Rightarrow> None)"

definition sys_step :: "System \<Rightarrow> sys_event \<Rightarrow> System option" where
  "sys_step sys ev =
     (case ev of
        EvPublish msg \<Rightarrow> Some (sys\<lparr>sys_sends := sys_sends sys @ [(SendStart, msg)]\<rparr>)
      | EvSend i \<Rightarrow>
          (if length (sys_sends sys) \<le> i then None
           else case sys_sends sys ! i of
                  (pc, msg) \<Rightarrow>
                    (case send_op (sys_sub sys) pc msg of
                       Some (Inr (s', pc')) \<Rightarrow>
                         Some (sys\<lparr>sys_sub := s', sys_sends := (sys_sends sys)[i := (pc', msg)]\<rparr>)
                     | _ \<Rightarrow> None))
      | EvSendHandOff i \<Rightarrow>
          (if length (sys_sends sys) \<le> i then None
           else case sys_sends sys ! i of
                  (pc, msg) \<Rightarrow>
                    if hand_off_ready sys pc
                    then Some (sys\<lparr>sys_loop := LoopWriting msg,
                                    sys_sends := (sys_sends sys)[i := (SendDone None, msg)]\<rparr>)
                    else None)
      | EvReplay \<Rightarrow> replay_step sys
      | EvReplayHandOff \<Rightarrow>
          (case sys_replay sys of
             ReplaySending pc msg ms \<Rightarrow>
               if hand_off_ready sys pc
               then Some (sys\<lparr>sys_loop := LoopWriting msg,
                               sys_replay := ReplaySending (SendDone None) msg ms,
                               replay_log := replay_log sys @ [msg]\<rparr>)
               else None
           | _ \<Rightarrow> None)
      | EvLoop lev now \<Rightarrow>
          (case loop_op (sys_sub sys) (sys_loop sys) lev now of
             Some (s', lp') \<Rightarrow> Some (sys\<lparr>sys_sub := s', sys_loop := lp'\<rparr>)
           | None \<Rightarrow> None)
      | EvClose \<Rightarrow> Some (sys\<lparr>sys_sub := Close (sys_sub sys)\<rparr>))"

fun run_sys :: "System \<Rightarrow> sys_event list \<Rightarrow> System option" where
  "run_sys sys [] = Some sys"
| "run_sys sys (ev # evs) =
     (case sys_step sys ev of None \<Rightarrow> None | Some sys' \<Rightarrow> run_sys sys' evs)"

text \<open>
  The system of the subscriber \<open>s\<close> when \<open>Topic.Subscribe\<close> has started the replay of the
  messages \<open>recent\<close> that \<open>GetLast(50)\<close> returned, and \<open>sendLoop\<close>: no call of the fan-out
  has begun.
\<close>

definition start_sys :: "Subscriber \<Rightarrow> Message list \<Rightarrow> System" where
  "start_sys s recent =
     \<lparr>sys_sub = s, sys_loop = LoopSelect, sys_sends = [], sys_replay = ReplayNext recent,
      replay_log = []\<rparr>"

text \<open>
  The messages in transit: those that a goroutine holds in a local variable after they
  were counted in \<open>messagesRecieved\<close> or taken from the channel and before they reach the
  channel, \<open>droppedCount\<close> or \<open>messagesSent\<close>. A call of \<open>SendMessages\<close> holds its own
  message from the \<open>Add(1)\<close> of line 61 to its return, and at \<open>BP_CountOldest\<close> also the
  message it took from the channel. \<open>sendLoop\<close> holds the message it is writing; a message
  whose write failed is never counted, so it stays in transit for ever.
\<close>

definition send_weight :: "send_pc \<Rightarrow> nat" where
  "send_weight pc =
     (case pc of SendStart \<Rightarrow> 0 | SendDone r \<Rightarrow> 0 | BP_CountOldest \<Rightarrow> 2 | _ \<Rightarrow> 1)"

definition loop_weight :: "loop_pc \<Rightarrow> nat" where
  "loop_weight lp =
     (case lp of
        LoopWriting msg \<Rightarrow> 1 | LoopWrote \<Rightarrow> 1 | LoopWriteFailed \<Rightarrow> 1
      | LoopReturned lost \<Rightarrow> (if lost then 1 else 0)
      | _ \<Rightarrow> 0)"

definition replay_pcs :: "replay_pc \<Rightarrow> send_pc list" where
  "replay_pcs rp = (case rp of ReplaySending pc msg ms \<Rightarrow> [pc] | _ \<Rightarrow> [])"

definition sys_pcs :: "System \<Rightarrow> send_pc list" where
  "sys_pcs sys = map fst (sys_sends sys) @ replay_pcs (sys_replay sys)"

definition in_transit :: "System \<Rightarrow> nat" where
  "in_transit sys = loop_weight (sys_loop sys) + sum_list (map send_weight (sys_pcs sys))"

definition balance :: "System \<Rightarrow> bool" where
  "balance sys \<longleftrightarrow>
     messagesRecieved (sys_sub sys) =
       messagesSent (sys_sub sys) + droppedCount (sys_sub sys) +
       of_nat (length (messageChan (sys_sub sys))) + of_nat (in_transit sys)"

text \<open>
  A call of \<open>SendMessages\<close> that is on its way to a send on the channel while the channel
  is closed: it panics when it gets there.
\<close>

definition racy_pc :: "send_pc \<Rightarrow> bool" where
  "racy_pc pc \<longleftrightarrow> pc = TrySend \<or> pc = BP_Recv \<or> pc = BP_CountOldest \<or> pc = BP_Resend"

definition send_on_closed_pending :: "System \<Rightarrow> bool" where
  "send_on_closed_pending sys \<longleftrightarrow> isClosed (sys_sub sys) \<and> list_ex racy_pc (sys_pcs sys)"

text \<open>No goroutine holds a message: every call has returned and \<open>sendLoop\<close> lost none.\<close>

definition quiescent :: "System \<Rightarrow> bool" where
  "quiescent sys \<longleftrightarrow> in_transit sys = 0"

definition is_publish :: "sys_event \<Rightarrow> bool" where
  "is_publish ev = (case ev of EvPublish msg \<Rightarrow> True | _ \<Rightarrow> False)"

text \<open>The control points of the \<open>CIRCUIT_BREAKER\<close> branch.\<close>

definition breaker_pc :: "send_pc \<Rightarrow> bool" where
  "breaker_pc pc \<longleftrightarrow> (case pc of CB_Load \<Rightarrow> True | CB_Loaded d \<Rightarrow> True | _ \<Rightarrow> False)"

text \<open>
  How far the replay of the messages \<open>recent\<close> has come, when it stands at \<open>rp\<close> and has
  put the messages \<open>done\<close> into the channel: \<open>done\<close> is the part of \<open>recent\<close> before the
  message it is sending, or has failed to send, followed by what is left to send.
\<close>

definition replay_progress :: "Message list \<Rightarrow> replay_pc \<Rightarrow> Message list \<Rightarrow> bool" where
  "replay_progress recent rp done \<longleftrightarrow>
     (case rp of
        ReplayNext ms \<Rightarrow> recent = done @ ms
      | ReplaySending pc msg ms \<Rightarrow>
          \<not> breaker_pc pc \<and>
          recent = (if pc = SendDone None then done @ ms else done @ msg # ms)
      | ReplayReturned None \<Rightarrow> recent = done
      | ReplayReturned (Some e) \<Rightarrow> (\<exists>msg ms. recent = done @ msg # ms))"

definition replay_inv :: "Message list \<Rightarrow> System \<Rightarrow> bool" where
  "replay_inv recent sys \<longleftrightarrow> replay_progress recent (sys_replay sys) (replay_log sys)"

text \<open>
  The replay of a \<open>DROP_OLDEST\<close> subscriber with a buffered channel, while no call of the
  fan-out is under way: it has met no error, and the channel has room when it is about to
  send again after the first \<open>select\<close> of \<open>handleBackPressure\<close>.
\<close>

definition steady_pc :: "Subscriber \<Rightarrow> send_pc \<Rightarrow> bool" where
  "steady_pc s pc \<longleftrightarrow>
     (case pc of
        BP_CountOldest \<Rightarrow> length (messageChan s) < chanCap s
      | BP_Resend \<Rightarrow> length (messageChan s) < chanCap s
      | BP_CountNew e \<Rightarrow> False
      | CB_Load \<Rightarrow> False
      | CB_Loaded d \<Rightarrow> False
      | SendDone r \<Rightarrow> r = None
      | _ \<Rightarrow> True)"

definition steady_replay :: "Subscriber \<Rightarrow> replay_pc \<Rightarrow> bool" where
  "steady_replay s rp \<longleftrightarrow>
     (case rp of
        ReplayNext ms \<Rightarrow> True
      | ReplaySending pc msg ms \<Rightarrow> steady_pc s pc
      | ReplayReturned r \<Rightarrow> r = None)"

definition undisturbed :: "System \<Rightarrow> bool" where
  "undisturbed sys \<longleftrightarrow>
     sys_sends sys = [] \<and> dropStrategy (sys_sub sys) = DROP_OLDEST \<and>
     1 \<le> chanCap (sys_sub sys) \<and> length (messageChan (sys_sub sys)) \<le> chanCap (sys_sub sys) \<and>
     steady_replay (sys_sub sys) (sys_replay sys)"

text \<open>
  A bound on the number of operations that the replay still has to execute before it
  returns: at most 9 for each message, the call and the 7 operations of the longest path
  through \<open>SendMessages\<close> and \<open>handleBackPressure\<close> among them.
\<close>

definition send_rank :: "send_pc \<Rightarrow> nat" where
  "send_rank pc =
     (case pc of
        SendStart \<Rightarrow> 7 | TrySend \<Rightarrow> 6 | BP_Recv \<Rightarrow> 5 | BP_CountOldest \<Rightarrow> 4
      | BP_Resend \<Rightarrow> 3 | BP_CountNew e \<Rightarrow> 2 | CB_Load \<Rightarrow> 4 | CB_Loaded d \<Rightarrow> 3
      | SendDone r \<Rightarrow> 1)"

definition replay_steps_left :: "replay_pc \<Rightarrow> nat" where
  "replay_steps_left rp =
     (case rp of
        ReplayNext ms \<Rightarrow> 9 * length ms + 1
      | ReplaySending pc msg ms \<Rightarrow> 9 * length ms + 1 + send_rank pc
      | ReplayReturned r \<Rightarrow> 0)"

definition IsSlow :: "Subscriber \<Rightarrow> bool" where
  "IsSlow s \<longleftrightarrow> 0 <s droppedCount s"


text \<open>The counter equation of drop accounting, in the counters' 64-bit arithmetic.\<close>

definition accounted :: "Subscriber \<Rightarrow> bool" where
  "accounted s \<longleftrightarrow>
     messagesRecieved s = messagesSent s + droppedCount s + of_nat (length (messageChan s))"

text \<open>
  \<open>fresh_sub cap\<close> is the subscriber that \<open>NewSubscriber\<close> returns for the buffer size
  \<open>cap\<close> at the time 0.
\<close>

definition fresh_sub :: "nat \<Rightarrow> Subscriber" where
  "fresh_sub cap =
     \<lparr>ID = ''sub-1'', SubTenantID = ''tenant-a'', SubTopic = ''topic'',
      messageChan = [], chanCap = cap, dropStrategy = DROP_OLDEST,
      droppedCount = 0, messagesRecieved = 0, messagesSent = 0,
      lastActive = 0, isClosed = False\<rparr>"

text \<open>
  \<open>IsHealthy\<close> at the time \<open>now\<close>: \<open>time.Since(s.lastActive)\<close> is \<open>now - lastActive s\<close>,
  and \<open>60*time.Second\<close> is that many nanoseconds.
\<close>

definition IsHealthy :: "Subscriber \<Rightarrow> int \<Rightarrow> bool" where
  "IsHealthy s now =
     (if now - lastActive s > 60 * 1000000000 then False
      else
        let messagesRecieved' = sint (messagesRecieved s);
            droppedCount' = sint (droppedCount s)
        in if messagesRecieved' > 0
             then (let dropRate = f64_div (f64_of_int droppedCount') (f64_of_int messagesRecieved')
                   in if dropRate > f64 (1 / 10) then False else True)
           else True)"

section \<open>AddaptiveBufferManager (internal/buffer)\<close>

text \<open>
  \<open>maxTotalMemory\<close> is an \<open>int64\<close>, \<open>suncriberCount\<close> and \<open>bufferSize\<close> are
  \<open>atomic.Int32\<close>; they are integers within those ranges, and every operation that can
  leave the range wraps explicitly.
\<close>

record AddaptiveBufferManager =
  maxTotalMemory :: int
  suncriberCount :: int
  bufferSize :: int

definition MinBifferSize :: int where "MinBifferSize = 100"
definition MaxBufferSize :: int where "MaxBufferSize = 1000"
definition AvgMessSize :: int where "AvgMessSize = 1024"

definition NewAdaptiveBufferManager :: "int \<Rightarrow> AddaptiveBufferManager" where
  "NewAdaptiveBufferManager maxMemort =
     \<lparr>maxTotalMemory = maxMemort, suncriberCount = 0, bufferSize = MaxBufferSize\<rparr>"

text \<open>
  One tick of \<open>monitorLoop\<close>. \<open>alloc\<close> is \<open>m.Alloc\<close>, the \<open>uint64\<close> that
  \<open>runtime.ReadMemStats\<close> reports at this tick.
\<close>

definition recalculate :: "AddaptiveBufferManager \<Rightarrow> int \<Rightarrow> AddaptiveBufferManager" where
  "recalculate adm alloc =
     (let subCount = suncriberCount adm
      in if subCount = 0 then adm
         else
           let currentMomory = wrap_i64 alloc;
               availableMemory0 = wrap_i64 (maxTotalMemory adm - currentMomory);
               availableMemory = (if availableMemory0 < 0 then 0 else availableMemory0);
               memoryPerSub = wrap_i64 (go_div availableMemory subCount);
               bufferPerSub0 = wrap_i32 (go_div memoryPerSub AvgMessSize);
               bufferPerSub1 = (if bufferPerSub0 < MinBifferSize then MinBifferSize else bufferPerSub0);
               bufferPerSub = (if bufferPerSub1 > MaxBufferSize then MaxBufferSize else bufferPerSub1)
           in adm\<lparr>bufferSize := bufferPerSub\<rparr>)"

definition GetBufferSize :: "AddaptiveBufferManager \<Rightarrow> int" where
  "GetBufferSize adm = bufferSize adm"

definition AddNewSubscriber :: "AddaptiveBufferManager \<Rightarrow> AddaptiveBufferManager" where
  "AddNewSubscriber adm = adm\<lparr>suncriberCount := wrap_i32 (suncriberCount adm + 1)\<rparr>"

definition OnSubscriberRemoval :: "AddaptiveBufferManager \<Rightarrow> AddaptiveBufferManager" where
  "OnSubscriberRemoval adm = adm\<lparr>suncriberCount := wrap_i32 (suncriberCount adm - 1)\<rparr>"

text \<open>The value that the specification gives for a recalculation step.\<close>

definition clamp :: "int \<Rightarrow> int \<Rightarrow> int \<Rightarrow> int" where
  "clamp x lo hi = (if x < lo then lo else if x > hi then hi else x)"

definition spec_buffer_size :: "int \<Rightarrow> int \<Rightarrow> int \<Rightarrow> int" where
  "spec_buffer_size max_total_memory alloc subscriber_count =
     clamp ((max 0 (max_total_memory - alloc) div max 1 subscriber_count) div 1024) 100 1000"

section \<open>AdaptiveThrottler (internal/throttle)\<close>

text \<open>Durations are in nanoseconds, as \<open>time.Duration\<close> is.\<close>

record Config =
  CPUThreshold :: float64
  MemoryThreshold :: float64
  SlowSubThreshold :: float64
  ThrottleDuration :: int
  CheckInterval :: int
  MinPublishInterval :: int

definition DefaultConfig :: Config where
  "DefaultConfig =
     \<lparr>CPUThreshold = f64 (80 / 100), MemoryThreshold = f64 (80 / 100),
      SlowSubThreshold = f64 (50 / 100),
      ThrottleDuration = 5 * 1000000000, CheckInterval = 1 * 1000000000,
      MinPublishInterval = 10 * 1000000\<rparr>"

text \<open>
  \<open>lastCheckTime\<close> holds seconds since the epoch (\<open>time.Now().Unix()\<close>). Besides the
  fields of the struct, the state has \<open>disarmTimers\<close>: one entry for each goroutine that
  \<open>StartThrottling\<close> has started and that has not yet called \<open>StopThrottling\<close>, the
  entry being the time at which its \<open>time.Sleep\<close> ends.
\<close>

record AdaptiveThrottler =
  config :: Config
  isThrottling :: bool
  lastCheckTime :: int
  slowSubCount :: int
  totalSubCount :: int
  lastCPUUsage :: int
  lastMemoryUsage :: int
  disarmTimers :: "int list"

text \<open>Time instants are nanoseconds since the epoch; \<open>Unix()\<close> is the whole seconds.\<close>

definition unix_seconds :: "int \<Rightarrow> int" where
  "unix_seconds now = now div 1000000000"

definition NewAdaptiveThrottler :: "Config \<Rightarrow> int \<Rightarrow> AdaptiveThrottler" where
  "NewAdaptiveThrottler cfg now =
     \<lparr>config = cfg, isThrottling = False, lastCheckTime = unix_seconds now,
      slowSubCount = 0, totalSubCount = 0, lastCPUUsage = 0, lastMemoryUsage = 0,
      disarmTimers = []\<rparr>"

definition StopThrottling :: "AdaptiveThrottler \<Rightarrow> AdaptiveThrottler" where
  "StopThrottling th = th\<lparr>isThrottling := False\<rparr>"

text \<open>\<open>StartThrottling\<close> called at the time \<open>now\<close>.\<close>

definition StartThrottling :: "AdaptiveThrottler \<Rightarrow> int \<Rightarrow> AdaptiveThrottler" where
  "StartThrottling th now =
     th\<lparr>isThrottling := True,
        disarmTimers := disarmTimers th @ [now + ThrottleDuration (config th)]\<rparr>"

text \<open>
  The goroutine with the \<open>i\<close>-th pending timer wakes up at the time \<open>now\<close> and calls
  \<open>StopThrottling\<close>. \<open>time.Sleep\<close> pauses for at least the duration, so this is a step
  only from the timer's time on.
\<close>

definition timer_fire :: "AdaptiveThrottler \<Rightarrow> nat \<Rightarrow> int \<Rightarrow> AdaptiveThrottler option" where
  "timer_fire th i now =
     (if i < length (disarmTimers th) \<and> disarmTimers th ! i \<le> now
      then Some (StopThrottling
                   (th\<lparr>disarmTimers := take i (disarmTimers th) @ drop (Suc i) (disarmTimers th)\<rparr>))
      else None)"

definition UpdateSubscriber :: "AdaptiveThrottler \<Rightarrow> int \<Rightarrow> int \<Rightarrow> AdaptiveThrottler" where
  "UpdateSubscriber th slowCount totalCOunt =
     th\<lparr>slowSubCount := wrap_i32 slowCount, totalSubCount := wrap_i32 totalCOunt\<rparr>"

text \<open>\<open>numGoroutines\<close> is \<open>runtime.NumGoroutine()\<close>; \<open>uint64(x)\<close> of a float truncates.\<close>

definition getCPUUsage :: "AdaptiveThrottler \<Rightarrow> nat \<Rightarrow> AdaptiveThrottler \<times> float64" where
  "getCPUUsage th numGoroutines =
     (let usage =
            (if numGoroutines > 10000 then f64 (9 / 10)
             else if numGoroutines > 5000 then f64 (7 / 10)
             else if numGoroutines > 1000 then f64 (5 / 10)
             else f64_div (f64_of_int (int numGoroutines)) (f64 1000))
      in (th\<lparr>lastCPUUsage := \<lfloor>f64_mul usage (f64 1000000)\<rfloor>\<rparr>, usage))"

text \<open>\<open>alloc\<close> is \<open>m.Alloc\<close>, a \<open>uint64\<close>.\<close>

definition getMemoryUsage :: "AdaptiveThrottler \<Rightarrow> nat \<Rightarrow> AdaptiveThrottler \<times> float64" where
  "getMemoryUsage th alloc =
     (let maxMemory = 2 * 1024 * 1024 * 1024;
          usage0 = f64_div (f64_of_int (int alloc)) (f64_of_int maxMemory);
          usage = (if usage0 > 1 then 1 else usage0)
      in (th\<lparr>lastMemoryUsage := \<lfloor>f64_mul usage (f64 1000000)\<rfloor>\<rparr>, usage))"

text \<open>
  \<open>ShouldThrottle\<close> called at the time \<open>now\<close>, when the runtime reports \<open>numGoroutines\<close>
  goroutines and \<open>alloc\<close> bytes of heap. \<open>time.Unix(sec, 0)\<close> is the instant
  \<open>sec * 10\<^sup>9\<close>. (\<open>Sub\<close> saturates at the ends of the range of \<open>time.Duration\<close>, which
  does not change the outcome of the comparison with \<open>CheckInterval\<close>.)
\<close>

definition ShouldThrottle :: "AdaptiveThrottler \<Rightarrow> int \<Rightarrow> nat \<Rightarrow> nat \<Rightarrow> AdaptiveThrottler \<times> bool" where
  "ShouldThrottle th now numGoroutines alloc =
     (if isThrottling th then (th, True)
      else
        let lastCheck = lastCheckTime th * 1000000000
        in if now - lastCheck < CheckInterval (config th) then (th, isThrottling th)
           else
             let th1 = th\<lparr>lastCheckTime := unix_seconds now\<rparr>;
                 (th2, cpuUsage) = getCPUUsage th1 numGoroutines;
                 (th3, memoryUsage) = getMemoryUsage th2 alloc;
                 slowSubs = f64_of_int (slowSubCount th3);
                 totalSubs = f64_of_int (totalSubCount th3)
             in if totalSubs = 0 then (th3, False)
                else
                  let slowSubPercentage = f64_div slowSubs totalSubs;
                      shouldThrottle =
                        (slowSubPercentage > SlowSubThreshold (config th3) \<and>
                         (cpuUsage > CPUThreshold (config th3) \<or>
                          memoryUsage > MemoryThreshold (config th3)))
                  in (if shouldThrottle then StartThrottling th3 now else th3, shouldThrottle))"

text \<open>
  The two parts of a call that samples: \<open>sampled\<close> is the state after the check time
  and the two readings are stored, \<open>throttle_decision\<close> the decision computed from the
  counts and the readings (false when \<open>totalSubCount\<close> is 0).
\<close>

definition sampled :: "AdaptiveThrottler \<Rightarrow> int \<Rightarrow> nat \<Rightarrow> nat \<Rightarrow> AdaptiveThrottler" where
  "sampled th now numGoroutines alloc =
     fst (getMemoryUsage (fst (getCPUUsage (th\<lparr>lastCheckTime := unix_seconds now\<rparr>) numGoroutines)) alloc)"

definition throttle_decision :: "AdaptiveThrottler \<Rightarrow> nat \<Rightarrow> nat \<Rightarrow> bool" where
  "throttle_decision th numGoroutines alloc \<longleftrightarrow>
     totalSubCount th \<noteq> 0 \<and>
     f64_div (f64_of_int (slowSubCount th)) (f64_of_int (totalSubCount th)) > SlowSubThreshold (config th) \<and>
     (snd (getCPUUsage th numGoroutines) > CPUThreshold (config th) \<or>
      snd (getMemoryUsage th alloc) > MemoryThreshold (config th))"

text \<open>\<open>ApplyThrottle\<close> changes no state; its result here is how long the caller sleeps.\<close>

definition ApplyThrottle :: "AdaptiveThrottler \<Rightarrow> int" where
  "ApplyThrottle th = (if isThrottling th then MinPublishInterval (config th) else 0)"

definition IsThrottling :: "AdaptiveThrottler \<Rightarrow> bool" where
  "IsThrottling th = isThrottling th"

text \<open>
  Timed histories of the throttler: calls of \<open>StartThrottling\<close> and wake-ups of the
  goroutines it started, each with the time at which it happens. Time does not run
  backwards; a history that breaks this, or wakes a goroutine before its sleep has ended,
  is not a run (\<open>None\<close>). The first argument of \<open>run_throttle\<close> is the time of the
  previous step.
\<close>

datatype throttle_event = Arm | TimerFire nat

fun run_throttle :: "int \<Rightarrow> AdaptiveThrottler \<Rightarrow> (int \<times> throttle_event) list \<Rightarrow> AdaptiveThrottler option" where
  "run_throttle t0 th [] = Some th"
| "run_throttle t0 th ((t, ev) # evs) =
     (if t < t0 then None
      else case ev of
             Arm \<Rightarrow> run_throttle t (StartThrottling th t) evs
           | TimerFire i \<Rightarrow>
               (case timer_fire th i t of
                  None \<Rightarrow> None
                | Some th' \<Rightarrow> run_throttle t th' evs))"

text \<open>
  The invariant of an armed window: the flag is set and no pending timer ends before
  the time \<open>d\<close>.
\<close>

definition armed_until :: "int \<Rightarrow> AdaptiveThrottler \<Rightarrow> bool" where
  "armed_until d th \<longleftrightarrow> isThrottling th \<and> (\<forall>x \<in> set (disarmTimers th). d \<le> x)"

section \<open>Topic (internal/core/topic.go)\<close>

text \<open>
  The Go map \<open>subscribers\<close> is an association list with unique keys. The topic holds
  the state of each subscriber that its map points to. Goroutines started by an
  operation run to completion within it: the fan-out of \<open>Publish\<close>, which \<open>Publish\<close>
  waits for, and the catch-up replay that \<open>Subscribe\<close> starts, here taken in the
  schedule in which it runs before any other step of that subscriber. A panic in any of
  them ends the process and is the result of the operation.
\<close>

record Topic =
  name :: string
  tenantID :: string
  subscribers :: "(string \<times> Subscriber) list"
  recentCache :: RecentMessageCache
  messagesPublished :: "64 word"
  totalSubscribers :: "64 word"
  createdAt :: int

datatype topic_error =
    TenantMismatch
  | SubscriberNotFound
  | TopicNotFound
  | ManagerTenantMismatch

definition NewTopic :: "string \<Rightarrow> string \<Rightarrow> int \<Rightarrow> int \<Rightarrow> panic + Topic" where
  "NewTopic nm tenant cahcheSize now =
     (case NewRecentMessageCache cahcheSize of
        Inl p \<Rightarrow> Inl p
      | Inr c \<Rightarrow>
          Inr \<lparr>name = nm, tenantID = tenant, subscribers = [], recentCache = c,
               messagesPublished = 0, totalSubscribers = 0, createdAt = now\<rparr>)"

text \<open>
  The fan-out of \<open>Publish\<close> over the snapshot: one \<open>SendMessages\<close> per subscriber, each
  on its own subscriber, so that their order does not matter; an error is printed and
  dropped.
\<close>

fun fan_out :: "(string \<times> Subscriber) list \<Rightarrow> Message \<Rightarrow> panic + (string \<times> Subscriber) list" where
  "fan_out [] msg = Inr []"
| "fan_out ((k, s) # rest) msg =
     (case SendMessages s msg of
        Inl p \<Rightarrow> Inl p
      | Inr (s', e) \<Rightarrow>
          (case fan_out rest msg of
             Inl p \<Rightarrow> Inl p
           | Inr rest' \<Rightarrow> Inr ((k, s') # rest')))"

definition Publish :: "Topic \<Rightarrow> Message \<Rightarrow> panic + (Topic \<times> topic_error option)" where
  "Publish t msg =
     (let t1 = t\<lparr>messagesPublished := messagesPublished t + 1\<rparr>
      in case Add (recentCache t1) msg of
           Inl p \<Rightarrow> Inl p
         | Inr c \<Rightarrow>
             (let t2 = t1\<lparr>recentCache := c\<rparr>
              in case fan_out (subscribers t2) msg of
                   Inl p \<Rightarrow> Inl p
                 | Inr subs \<Rightarrow> Inr (t2\<lparr>subscribers := subs\<rparr>, None)))"

text \<open>The loop of \<open>sendRecentMessages\<close>, which returns at the first error.\<close>

fun send_recent_loop :: "Subscriber \<Rightarrow> Message list \<Rightarrow> panic + Subscriber" where
  "send_recent_loop s [] = Inr s"
| "send_recent_loop s (msg # recent) =
     (case SendMessages s msg of
        Inl p \<Rightarrow> Inl p
      | Inr (s', Some err) \<Rightarrow> Inr s'
      | Inr (s', None) \<Rightarrow> send_recent_loop s' recent)"

definition sendRecentMessages :: "Topic \<Rightarrow> Subscriber \<Rightarrow> panic + Subscriber" where
  "sendRecentMessages t sub =
     (case GetLast (recentCache t) 50 of
        Inl p \<Rightarrow> Inl p
      | Inr recent \<Rightarrow> send_recent_loop sub recent)"

text \<open>
  \<open>Subscribe_call\<close> is \<open>Topic.Subscribe\<close> from its first statement to its return: the
  tenant check, the entry of the map and the counter. The two goroutines that it starts,
  the replay and \<open>sendLoop\<close>, run after it and interleaved with the rest of the program:
  these runs are those of \<open>run_sys\<close> from \<open>start_sys sub recent\<close>, where \<open>recent\<close> is what
  the \<open>GetLast(50)\<close> of the replay returns. \<open>Subscribe\<close> is the one schedule in which the
  replay runs to its end before anything else does; a panic of the replay, which ends
  the process, is then the result.
\<close>

definition Subscribe_call :: "Topic \<Rightarrow> Subscriber \<Rightarrow> Topic \<times> topic_error option" where
  "Subscribe_call t sub =
     (if tenantID t \<noteq> SubTenantID sub then (t, Some TenantMismatch)
      else
        let t1 = t\<lparr>subscribers := AList.update (ID sub) sub (subscribers t)\<rparr>;
            t2 = t1\<lparr>totalSubscribers := totalSubscribers t1 + 1\<rparr>
        in (t2, None))"

definition Subscribe :: "Topic \<Rightarrow> Subscriber \<Rightarrow> panic + (Topic \<times> topic_error option)" where
  "Subscribe t sub =
     (if tenantID t \<noteq> SubTenantID sub then Inr (t, Some TenantMismatch)
      else
        let t1 = t\<lparr>subscribers := AList.update (ID sub) sub (subscribers t)\<rparr>;
            t2 = t1\<lparr>totalSubscribers := totalSubscribers t1 + 1\<rparr>
        in case sendRecentMessages t2 sub of
             Inl p \<Rightarrow> Inl p
           | Inr sub' \<Rightarrow>
               Inr (t2\<lparr>subscribers := AList.update (ID sub) sub' (subscribers t2)\<rparr>, None))"

text \<open>
  \<open>Unsubscribe\<close> deletes the entry of the map and calls \<open>sub.Close()\<close> on the subscriber
  that it held (line 118). The topic no longer holds that subscriber, so its closed state
  is the second component of the result; it is \<open>None\<close> when no subscriber has the given ID.
\<close>

definition Unsubscribe :: "Topic \<Rightarrow> string \<Rightarrow> Topic \<times> Subscriber option \<times> topic_error option" where
  "Unsubscribe t subscriberID =
     (case map_of (subscribers t) subscriberID of
        None \<Rightarrow> (t, None, Some SubscriberNotFound)
      | Some sub \<Rightarrow>
          (t\<lparr>subscribers := AList.delete subscriberID (subscribers t)\<rparr>, Some (Close sub), None))"

definition GetSubscriberCount :: "Topic \<Rightarrow> int" where
  "GetSubscriberCount t = int (length (subscribers t))"

definition GetSlowSubscriberCount :: "Topic \<Rightarrow> int" where
  "GetSlowSubscriberCount t = int (length (filter (\<lambda>(k, sub). IsSlow sub) (subscribers t)))"

text \<open>A series of \<open>Publish\<close> calls on one topic.\<close>

fun publish_all :: "Topic \<Rightarrow> Message list \<Rightarrow> panic + Topic" where
  "publish_all t [] = Inr t"
| "publish_all t (m # ms) =
     (case Publish t m of Inl p \<Rightarrow> Inl p | Inr (t', e) \<Rightarrow> publish_all t' ms)"

text \<open>
  \<open>recent_window N ms\<close> is what the catch-up replay is to deliver from a cache of
  capacity \<open>N\<close> to which the messages \<open>ms\<close> were added: the last \<open>min 50 count\<close> of them
  in the order in which they were added, \<open>count\<close> being \<open>min (length ms) N\<close>.
\<close>

definition recent_window :: "int \<Rightarrow> Message list \<Rightarrow> Message list" where
  "recent_window N ms = drop (length ms - min 50 (min (length ms) (nat N))) ms"

text \<open>
  Example data: three messages, and the topic of the tenant \<open>tenant-a\<close>, made with a
  cache of capacity 3, before and after the first two are published to it.
\<close>

definition msg1 :: Message where
  "msg1 = \<lparr>Id_msg = ''msg-1'', Topic = ''topic'', TenantID = ''tenant-a'',
           Data = [(''n'', JNumber 1)], Timestamp = 1\<rparr>"

definition msg2 :: Message where
  "msg2 = \<lparr>Id_msg = ''msg-2'', Topic = ''topic'', TenantID = ''tenant-a'',
           Data = [(''n'', JNumber 2)], Timestamp = 2\<rparr>"

definition msg3 :: Message where
  "msg3 = \<lparr>Id_msg = ''msg-3'', Topic = ''topic'', TenantID = ''tenant-a'',
           Data = [(''n'', JNumber 3)], Timestamp = 3\<rparr>"

definition empty_topic :: Topic where
  "empty_topic =
     \<lparr>name = ''topic'', tenantID = ''tenant-a'', subscribers = [],
      recentCache = \<lparr>messages = [zeroMessage, zeroMessage, zeroMessage],
                      size_rc = 3, index_rc = 0, count_rc = 0\<rparr>,
      messagesPublished = 0, totalSubscribers = 0, createdAt = 0\<rparr>"

definition two_message_topic :: Topic where
  "two_message_topic =
     \<lparr>name = ''topic'', tenantID = ''tenant-a'', subscribers = [],
      recentCache = \<lparr>messages = [msg1, msg2, zeroMessage],
                      size_rc = 3, index_rc = 2, count_rc = 2\<rparr>,
      messagesPublished = 2, totalSubscribers = 0, createdAt = 0\<rparr>"

section \<open>TopicManager (internal/core/topic_manager.go)\<close>

text \<open>
  The manager holds the state of the topics of its map, and of the buffer manager and
  the throttler that it points to.
\<close>

record TopicManager =
  bufferManager :: AddaptiveBufferManager
  throttler :: AdaptiveThrottler
  topics :: "(string \<times> Topic) list"

definition NewTopicManager :: "AddaptiveBufferManager \<Rightarrow> AdaptiveThrottler \<Rightarrow> TopicManager" where
  "NewTopicManager buffer throttle =
     \<lparr>bufferManager = buffer, throttler = throttle, topics = []\<rparr>"

definition makeTopicKey :: "string \<Rightarrow> string \<Rightarrow> string" where
  "makeTopicKey tenant topicName = tenant @ '':'' @ topicName"

definition getOrCreateTopic :: "TopicManager \<Rightarrow> string \<Rightarrow> string \<Rightarrow> int \<Rightarrow> panic + (TopicManager \<times> Topic)" where
  "getOrCreateTopic tm tenant_id topic_name now =
     (let topicKey = makeTopicKey tenant_id topic_name
      in case map_of (topics tm) topicKey of
           Some topic \<Rightarrow> Inr (tm, topic)
         | None \<Rightarrow>
             (case NewTopic topic_name tenant_id 100 now of
                Inl p \<Rightarrow> Inl p
              | Inr topic \<Rightarrow>
                  Inr (tm\<lparr>topics := AList.update topicKey topic (topics tm)\<rparr>, topic)))"

text \<open>
  \<open>TopicManager.Publish\<close>, \<open>TopicManager.Subscribe\<close> and \<open>TopicManager.Unsubscribe\<close>.
  The operation on the topic changes the topic that the map points to.
\<close>

definition TM_Publish :: "TopicManager \<Rightarrow> string \<Rightarrow> string \<Rightarrow> Message \<Rightarrow> int \<Rightarrow> panic + (TopicManager \<times> topic_error option)" where
  "TM_Publish tm tenant_id topic_name msg now =
     (case getOrCreateTopic tm tenant_id topic_name now of
        Inl p \<Rightarrow> Inl p
      | Inr (tm1, topic) \<Rightarrow>
          (case Publish topic msg of
             Inl p \<Rightarrow> Inl p
           | Inr (topic', err) \<Rightarrow>
               Inr (tm1\<lparr>topics := AList.update (makeTopicKey tenant_id topic_name) topic' (topics tm1)\<rparr>,
                    err)))"

definition TM_Subscribe :: "TopicManager \<Rightarrow> string \<Rightarrow> string \<Rightarrow> string \<Rightarrow> Subscriber \<Rightarrow> int \<Rightarrow> panic + (TopicManager \<times> topic_error option)" where
  "TM_Subscribe tm tenant_id topic_name subscriberID sub now =
     (if SubTenantID sub \<noteq> tenant_id then Inr (tm, Some ManagerTenantMismatch)
      else
        case getOrCreateTopic tm tenant_id topic_name now of
          Inl p \<Rightarrow> Inl p
        | Inr (tm1, topic) \<Rightarrow>
            (let tm2 = tm1\<lparr>bufferManager := AddNewSubscriber (bufferManager tm1)\<rparr>
             in case Subscribe topic sub of
                  Inl p \<Rightarrow> Inl p
                | Inr (topic', err) \<Rightarrow>
                    Inr (tm2\<lparr>topics := AList.update (makeTopicKey tenant_id topic_name) topic' (topics tm2)\<rparr>,
                         err)))"

definition TM_Unsubscribe :: "TopicManager \<Rightarrow> string \<Rightarrow> string \<Rightarrow> string \<Rightarrow> TopicManager \<times> Subscriber option \<times> topic_error option" where
  "TM_Unsubscribe tm tenant_id topic_name subscriberID =
     (let topicKey = makeTopicKey tenant_id topic_name
      in case map_of (topics tm) topicKey of
           None \<Rightarrow> (tm, None, Some TopicNotFound)
         | Some topic \<Rightarrow>
             (case Unsubscribe topic subscriberID of
                (topic', closed_sub, Some err) \<Rightarrow> (tm, None, Some err)
              | (topic', closed_sub, None) \<Rightarrow>
                  (tm\<lparr>topics := AList.update topicKey topic' (topics tm),
                      bufferManager := OnSubscriberRemoval (bufferManager tm)\<rparr>, closed_sub, None)))"

text \<open>
  The state of the subscriber \<open>sid\<close> of the topic that the manager's map has under the
  key \<open>key\<close>.
\<close>

definition subscriber_of :: "TopicManager \<Rightarrow> string \<Rightarrow> string \<Rightarrow> Subscriber option" where
  "subscriber_of tm key sid =
     (case map_of (topics tm) key of
        None \<Rightarrow> None
      | Some topic \<Rightarrow> map_of (subscribers topic) sid)"

text \<open>
  Example data: a subscriber of the tenant \<open>a:b\<close> on the topic \<open>c\<close>, as \<open>NewSubscriber\<close>
  makes it with buffer size 100, and a message of the tenant \<open>a\<close> for the topic \<open>b:c\<close>.
\<close>

definition tenant_ab_sub :: Subscriber where
  "tenant_ab_sub = (fresh_sub 100)\<lparr>ID := ''s1'', SubTenantID := ''a:b'', SubTopic := ''c''\<rparr>"

definition tenant_a_msg :: Message where
  "tenant_a_msg = \<lparr>Id_msg = ''msg-1'', Topic = ''b:c'', TenantID = ''a'',
                   Data = [(''v'', JString ''x'')], Timestamp = 2\<rparr>"

section \<open>Properties of the RecentMessageCache\<close>

lemma go_mod_nonneg: "0 \<le> a \<Longrightarrow> 0 < b \<Longrightarrow> go_mod a b = a mod b"
  by (simp add: go_mod_def go_div_def sgn_if minus_mult_div_eq_mod)

lemma ring_New: "0 < N \<Longrightarrow> NewRecentMessageCache N = Inr c \<Longrightarrow> ring_inv N c []"
  by (auto simp: NewRecentMessageCache_def ring_inv_def)

lemma mod_shift_neq:
  fixes N :: int
  assumes "0 < j" "j < N"
  shows "(l - j) mod N \<noteq> l mod N"
proof
  assume "(l - j) mod N = l mod N"
  then have "N dvd (l - j) - l" by (simp add: mod_eq_dvd_iff)
  then have "N dvd j" by simp
  with assms show False by (auto dest: zdvd_imp_le)
qed

lemma ring_Add:
  assumes "ring_inv N c hist"
  shows "\<exists>c'. Add c m = Inr c' \<and> ring_inv N c' (hist @ [m])"
proof -
  let ?l = "int (length hist)"
  from assms have N: "0 < N" and sz: "size_rc c = N" and len: "int (length (messages c)) = N"
    and idx: "index_rc c = ?l mod N" and cnt: "count_rc c = min ?l N"
    and el: "\<And>j. j < length hist \<Longrightarrow> int j < N \<Longrightarrow>
        messages c ! nat ((?l - 1 - int j) mod N) = hist ! (length hist - 1 - j)"
    by (auto simp: ring_inv_def)
  have idx_rng: "0 \<le> index_rc c" "index_rc c < N" using N idx by simp_all
  define c' where "c' = c\<lparr>messages := (messages c)[nat (index_rc c) := m],
      index_rc := (?l + 1) mod N, count_rc := min (?l + 1) N\<rparr>"
  have nidx: "go_mod (index_rc c + 1) N = (?l + 1) mod N"
    using idx_rng N by (simp add: go_mod_nonneg idx mod_add_left_eq)
  have "Add c m = Inr c'"
    using idx_rng N sz len cnt nidx by (auto simp: Add_def c'_def Let_def min_def)
  moreover have "ring_inv N c' (hist @ [m])"
    unfolding ring_inv_def
  proof (intro conjI allI impI)
    fix j assume j: "j < length (hist @ [m])" and jN: "int j < N"
    show "messages c' ! nat ((int (length (hist @ [m])) - 1 - int j) mod N) =
          (hist @ [m]) ! (length (hist @ [m]) - 1 - j)"
    proof (cases j)
      case 0
      have "nat (?l mod N) < length (messages c)" using N len by (simp add: nat_less_iff)
      then show ?thesis using 0 idx by (simp add: c'_def)
    next
      case (Suc j')
      then have j': "j' < length hist" "int j' < N" using j jN by simp_all
      have neq: "(?l - int j) mod N \<noteq> ?l mod N"
        using mod_shift_neq [of "int j" N ?l] Suc jN by simp
      then have neq': "nat ((?l - int j) mod N) \<noteq> nat (index_rc c)"
        using N idx by (simp add: nat_eq_iff)
      have "messages c' ! nat ((?l - int j) mod N) = messages c ! nat ((?l - int j) mod N)"
        using neq' by (simp add: c'_def)
      also have "\<dots> = messages c ! nat ((?l - 1 - int j') mod N)" using Suc by (simp add: algebra_simps)
      also have "\<dots> = hist ! (length hist - 1 - j')" using el [OF j'] .
      finally show ?thesis using Suc j' by (simp add: nth_append)
    qed
  qed (use N sz len in \<open>simp_all add: c'_def add.commute\<close>)
  ultimately show ?thesis by blast
qed

lemma ring_add_all:
  "ring_inv N c hist \<Longrightarrow> \<exists>c'. add_all c ms = Inr c' \<and> ring_inv N c' (hist @ ms)"
proof (induction ms arbitrary: c hist)
  case Nil
  then show ?case by simp
next
  case (Cons m ms)
  from ring_Add [OF Cons.prems, of m] obtain c1 where
    c1: "Add c m = Inr c1" "ring_inv N c1 (hist @ [m])" by blast
  from Cons.IH [OF c1(2)] c1(1) show ?case by simp
qed

lemma ring_loop:
  assumes "ring_inv N c hist"
  shows "0 \<le> i \<Longrightarrow> i + int k = n \<Longrightarrow> n \<le> min (int (length hist)) N \<Longrightarrow>
     GetLast_loop c ((int (length hist) - n) mod N) i k = Inr (drop (length hist - k) hist)"
proof (induction k arbitrary: i)
  case 0
  then show ?case by simp
next
  case (Suc k)
  let ?l = "int (length hist)"
  from assms have N: "0 < N" and sz: "size_rc c = N" and len: "int (length (messages c)) = N"
    and el: "\<And>j. j < length hist \<Longrightarrow> int j < N \<Longrightarrow>
        messages c ! nat ((?l - 1 - int j) mod N) = hist ! (length hist - 1 - j)"
    by (auto simp: ring_inv_def)
  have k: "k < length hist" "int k < N" using Suc.prems by simp_all
  have pos: "go_mod ((?l - n) mod N + i) N = (?l - 1 - int k) mod N"
  proof -
    have "0 \<le> (?l - n) mod N + i" using N Suc.prems by simp
    then have "go_mod ((?l - n) mod N + i) N = ((?l - n) mod N + i) mod N"
      using N by (simp add: go_mod_nonneg)
    also have "\<dots> = (?l - n + i) mod N" by (simp add: mod_add_left_eq)
    also have "?l - n + i = ?l - 1 - int k" using Suc.prems by simp
    finally show ?thesis .
  qed
  have rng: "0 \<le> (?l - 1 - int k) mod N" "(?l - 1 - int k) mod N < int (length (messages c))"
    using N len by simp_all
  have rest: "GetLast_loop c ((?l - n) mod N) (i + 1) k = Inr (drop (length hist - k) hist)"
    using Suc.IH [of "i + 1"] Suc.prems by simp
  have "drop (length hist - Suc k) hist = hist ! (length hist - Suc k) # drop (length hist - k) hist"
    using k Cons_nth_drop_Suc [of "length hist - Suc k" hist] by (simp add: Suc_diff_Suc)
  then show ?case
    using pos rng rest el [OF k] sz by (simp add: Let_def)
qed

lemma ring_GetLast:
  assumes "ring_inv N c hist" "0 \<le> k"
  shows "GetLast c k = Inr (drop (length hist - nat (min k (count_rc c))) hist)"
proof -
  let ?l = "int (length hist)"
  from assms have N: "0 < N" and sz: "size_rc c = N"
    and idx: "index_rc c = ?l mod N" and cnt: "count_rc c = min ?l N"
    by (auto simp: ring_inv_def)
  define n where "n = min k (count_rc c)"
  have n: "0 \<le> n" "n \<le> min ?l N" using assms(2) cnt N by (auto simp: n_def)
  have n_if: "(if k > count_rc c then count_rc c else k) = n" by (simp add: n_def min_def)
  show ?thesis
  proof (cases "n = 0")
    case True
    then show ?thesis using n_if by (simp add: GetLast_def n_def [symmetric])
  next
    case False
    have "0 \<le> index_rc c" using idx N by simp
    moreover have "n \<le> N" using n by simp
    ultimately have "0 \<le> index_rc c - n + N" by linarith
    then have "go_mod (index_rc c - n + N) N = (index_rc c - n + N) mod N"
      using N by (simp add: go_mod_nonneg)
    also have "\<dots> = (?l - n) mod N" unfolding idx
      by (metis add.commute diff_conv_add_uminus mod_add_left_eq mod_add_self1)
    finally have sp: "go_mod (index_rc c - n + N) N = (?l - n) mod N" .
    have "GetLast_loop c ((?l - n) mod N) 0 (nat n) = Inr (drop (length hist - nat n) hist)"
      using ring_loop [OF assms(1), of 0 "nat n" n] n by simp
    then show ?thesis
      using False n n_if N sz sp by (simp add: GetLast_def n_def [symmetric] Let_def)
  qed
qed

lemma GetLast_loop_total:
  assumes "size_rc c = int (length (messages c))" "0 < size_rc c" "0 \<le> sp"
  shows "0 \<le> i \<Longrightarrow> \<exists>xs. GetLast_loop c sp i k = Inr xs \<and> length xs = k"
proof (induction k arbitrary: i)
  case 0
  then show ?case by simp
next
  case (Suc k)
  have "go_mod (sp + i) (size_rc c) = (sp + i) mod size_rc c"
    using assms Suc.prems by (simp add: go_mod_nonneg)
  then have pos: "0 \<le> go_mod (sp + i) (size_rc c)"
      "go_mod (sp + i) (size_rc c) < int (length (messages c))"
    using assms by simp_all
  from Suc.IH [of "i + 1"] Suc.prems obtain xs where
    "GetLast_loop c sp (i + 1) k = Inr xs" "length xs = k" by auto
  then show ?case using pos by (simp add: Let_def)
qed

lemma cache_wf_GetLast:
  assumes "cache_wf c" "0 \<le> n"
  shows "\<exists>xs. GetLast c n = Inr xs \<and> int (length xs) = min n (count_rc c)"
proof -
  define n' where "n' = min n (count_rc c)"
  have n_if: "(if n > count_rc c then count_rc c else n) = n'" by (simp add: n'_def min_def)
  from assms have wf: "size_rc c = int (length (messages c))" "0 \<le> index_rc c"
      "0 \<le> count_rc c" "count_rc c \<le> size_rc c"
    by (simp_all add: cache_wf_def)
  have n': "0 \<le> n'" "n' \<le> size_rc c" using assms(2) wf by (simp_all add: n'_def)
  show ?thesis
  proof (cases "n' = 0")
    case True
    then show ?thesis using n_if by (simp add: GetLast_def n'_def [symmetric])
  next
    case False
    then have sz: "0 < size_rc c" using n' by simp
    have "0 \<le> index_rc c - n' + size_rc c" using wf n' by simp
    then have sp: "0 \<le> go_mod (index_rc c - n' + size_rc c) (size_rc c)"
      using sz by (simp add: go_mod_nonneg)
    from GetLast_loop_total [OF wf(1) sz sp, of 0 "nat n'"] obtain xs where
      "GetLast_loop c (go_mod (index_rc c - n' + size_rc c) (size_rc c)) 0 (nat n') = Inr xs"
      "length xs = nat n'" by auto
    then show ?thesis
      using False n' sz n_if by (simp add: GetLast_def n'_def [symmetric] Let_def)
  qed
qed

lemma cache_wf_New: "NewRecentMessageCache N = Inr c \<Longrightarrow> cache_wf c"
  by (auto simp: NewRecentMessageCache_def cache_wf_def split: if_splits)

lemma cache_wf_Add:
  assumes "cache_wf c" "Add c m = Inr c'"
  shows "cache_wf c'"
proof -
  from assms(2) have rng: "0 \<le> index_rc c" "size_rc c \<noteq> 0"
    by (auto simp: Add_def split: if_splits)
  with assms(1) have sz: "0 < size_rc c" by (simp add: cache_wf_def)
  have "go_mod (index_rc c + 1) (size_rc c) = (index_rc c + 1) mod size_rc c"
    using rng sz by (simp add: go_mod_nonneg)
  then have "0 \<le> go_mod (index_rc c + 1) (size_rc c)" using sz by simp
  then show ?thesis
    using assms by (auto simp: Add_def cache_wf_def Let_def split: if_splits)
qed

lemma cache_wf_Clear: "cache_wf c \<Longrightarrow> cache_wf (Clear c)"
  by (simp add: cache_wf_def Clear_def)

lemma cache_wf_apply_ops: "cache_wf c \<Longrightarrow> apply_ops c ops = Inr c' \<Longrightarrow> cache_wf c'"
proof (induction c ops rule: apply_ops.induct)
  case (1 c)
  then show ?case by simp
next
  case (2 c m ops)
  then show ?case by (auto split: sum.splits dest: cache_wf_Add)
next
  case (3 c ops)
  then show ?case by (simp add: cache_wf_Clear)
qed

lemma GetLast_negative:
  assumes "0 \<le> count_rc c" "n < 0"
  shows "GetLast c n = Inl MakeLenOutOfRange"
  using assms by (simp add: GetLast_def)

text \<open>
  C7. On a cache of capacity \<open>N\<close>, after any sequence \<open>ms\<close> of \<open>Add\<close> calls, the cache
  holds \<open>min (length ms) N\<close> messages, never more than \<open>N\<close>; \<open>GetAll\<close> returns the last
  \<open>N\<close> messages added, so the oldest ones are those evicted; and for every number \<open>k\<close>,
  \<open>GetLast k\<close> returns the \<open>min k count\<close> most recent messages in the order in which
  they were added, oldest first. An empty cache returns the empty list for every \<open>k\<close>.
  (\<open>drop (length ms - n) ms\<close> is the list of the last \<open>n\<close> elements of \<open>ms\<close>.)
\<close>

theorem RecentCache_last_correct:
  assumes "0 < N"
  shows "\<exists>c0 c. NewRecentMessageCache N = Inr c0 \<and> add_all c0 ms = Inr c \<and>
           (\<forall>k::nat. GetLast c0 (int k) = Inr []) \<and>
           length (messages c) = nat N \<and>
           count_rc c = min (int (length ms)) N \<and>
           GetAll c = Inr (drop (length ms - nat N) ms) \<and>
           (\<forall>k::nat. GetLast c (int k) = Inr (drop (length ms - min k (nat (count_rc c))) ms))"
proof -
  from assms obtain c0 where c0: "NewRecentMessageCache N = Inr c0"
    by (auto simp: NewRecentMessageCache_def)
  have r0: "ring_inv N c0 []" using ring_New [OF assms c0] .
  from ring_add_all [OF r0, of ms] obtain c where c: "add_all c0 ms = Inr c" "ring_inv N c ms"
    by auto
  have cnt: "count_rc c = min (int (length ms)) N" and len: "length (messages c) = nat N"
    using c(2) by (auto simp: ring_inv_def)
  have last_k: "GetLast c (int k) = Inr (drop (length ms - min k (nat (count_rc c))) ms)" for k
  proof -
    have "0 \<le> count_rc c" using cnt assms by simp
    then have "nat (min (int k) (count_rc c)) = min k (nat (count_rc c))" by linarith
    then show ?thesis using ring_GetLast [OF c(2), of "int k"] by simp
  qed
  have empty_k: "GetLast c0 (int k) = Inr []" for k
    using ring_GetLast [OF r0, of "int k"] by simp
  have "nat (min (count_rc c) (count_rc c)) = min (length ms) (nat N)"
    using cnt assms by linarith
  then have "GetAll c = Inr (drop (length ms - min (length ms) (nat N)) ms)"
    unfolding GetAll_def using ring_GetLast [OF c(2), of "count_rc c"] cnt assms by simp
  moreover have "drop (length ms - min (length ms) (nat N)) ms = drop (length ms - nat N) ms"
    by (simp add: min_def)
  ultimately have all: "GetAll c = Inr (drop (length ms - nat N) ms)" by simp
  show ?thesis using c0 c(1) cnt len all last_k empty_k by blast
qed

theorem RecentCache_last_correct_witness:
  "\<exists>c0 c. NewRecentMessageCache 3 = Inr c0 \<and>
     add_all c0 [zeroMessage\<lparr>Id_msg := ''m1''\<rparr>, zeroMessage\<lparr>Id_msg := ''m2''\<rparr>,
                 zeroMessage\<lparr>Id_msg := ''m3''\<rparr>, zeroMessage\<lparr>Id_msg := ''m4''\<rparr>] = Inr c \<and>
     count_rc c = 3 \<and>
     GetAll c = Inr [zeroMessage\<lparr>Id_msg := ''m2''\<rparr>, zeroMessage\<lparr>Id_msg := ''m3''\<rparr>,
                     zeroMessage\<lparr>Id_msg := ''m4''\<rparr>] \<and>
     GetLast c 2 = Inr [zeroMessage\<lparr>Id_msg := ''m3''\<rparr>, zeroMessage\<lparr>Id_msg := ''m4''\<rparr>]"
proof -
  have h: "(0::int) < 3" by simp
  from RecentCache_last_correct [OF h, of "[zeroMessage\<lparr>Id_msg := ''m1''\<rparr>,
      zeroMessage\<lparr>Id_msg := ''m2''\<rparr>, zeroMessage\<lparr>Id_msg := ''m3''\<rparr>, zeroMessage\<lparr>Id_msg := ''m4''\<rparr>]"]
  obtain c0 c where *: "NewRecentMessageCache 3 = Inr c0"
    "add_all c0 [zeroMessage\<lparr>Id_msg := ''m1''\<rparr>, zeroMessage\<lparr>Id_msg := ''m2''\<rparr>,
                 zeroMessage\<lparr>Id_msg := ''m3''\<rparr>, zeroMessage\<lparr>Id_msg := ''m4''\<rparr>] = Inr c"
    "count_rc c = min (int (length [zeroMessage\<lparr>Id_msg := ''m1''\<rparr>, zeroMessage\<lparr>Id_msg := ''m2''\<rparr>,
                 zeroMessage\<lparr>Id_msg := ''m3''\<rparr>, zeroMessage\<lparr>Id_msg := ''m4''\<rparr>])) 3"
    "GetAll c = Inr (drop (length [zeroMessage\<lparr>Id_msg := ''m1''\<rparr>, zeroMessage\<lparr>Id_msg := ''m2''\<rparr>,
                 zeroMessage\<lparr>Id_msg := ''m3''\<rparr>, zeroMessage\<lparr>Id_msg := ''m4''\<rparr>] - nat 3)
              [zeroMessage\<lparr>Id_msg := ''m1''\<rparr>, zeroMessage\<lparr>Id_msg := ''m2''\<rparr>,
                 zeroMessage\<lparr>Id_msg := ''m3''\<rparr>, zeroMessage\<lparr>Id_msg := ''m4''\<rparr>])"
    "\<And>k::nat. GetLast c (int k) =
       Inr (drop (length [zeroMessage\<lparr>Id_msg := ''m1''\<rparr>, zeroMessage\<lparr>Id_msg := ''m2''\<rparr>,
                 zeroMessage\<lparr>Id_msg := ''m3''\<rparr>, zeroMessage\<lparr>Id_msg := ''m4''\<rparr>] - min k (nat (count_rc c)))
              [zeroMessage\<lparr>Id_msg := ''m1''\<rparr>, zeroMessage\<lparr>Id_msg := ''m2''\<rparr>,
                 zeroMessage\<lparr>Id_msg := ''m3''\<rparr>, zeroMessage\<lparr>Id_msg := ''m4''\<rparr>])"
    by blast
  have cnt: "count_rc c = 3" using *(3) by simp
  have "GetLast c (int 2) = Inr [zeroMessage\<lparr>Id_msg := ''m3''\<rparr>, zeroMessage\<lparr>Id_msg := ''m4''\<rparr>]"
    unfolding *(5) [of 2] cnt by simp
  then show ?thesis using *(1,2,4) cnt by simp
qed

text \<open>
  C10. In every state of a cache, that is after any sequence of \<open>Add\<close> and \<open>Clear\<close>
  calls on a new cache, \<open>GetLast n\<close> returns a list of length \<open>min n count\<close> for every
  \<open>n \<ge> 0\<close>, and panics in the slice allocation for every \<open>n < 0\<close>. The callers within
  the program pass a non-negative argument and so never panic: \<open>GetAll\<close> passes
  \<open>count\<close>, which is never negative, and the catch-up replay passes 50.
\<close>

theorem GetLast_total_for_nonnegative:
  assumes "NewRecentMessageCache N = Inr c0" "apply_ops c0 ops = Inr c"
  shows "(0 \<le> n \<longrightarrow> (\<exists>xs. GetLast c n = Inr xs \<and> int (length xs) = min n (count_rc c))) \<and>
         (n < 0 \<longrightarrow> GetLast c n = Inl MakeLenOutOfRange) \<and>
         0 \<le> count_rc c \<and>
         (\<exists>ys. GetAll c = Inr ys \<and> int (length ys) = count_rc c) \<and>
         (\<exists>zs. GetLast c 50 = Inr zs \<and> int (length zs) = min 50 (count_rc c))"
proof -
  have wf: "cache_wf c"
    using cache_wf_apply_ops [OF cache_wf_New [OF assms(1)] assms(2)] .
  then have cnt: "0 \<le> count_rc c" by (simp add: cache_wf_def)
  have "\<exists>ys. GetAll c = Inr ys \<and> int (length ys) = count_rc c"
    unfolding GetAll_def using cache_wf_GetLast [OF wf cnt] by simp
  moreover have "\<exists>zs. GetLast c 50 = Inr zs \<and> int (length zs) = min 50 (count_rc c)"
    using cache_wf_GetLast [OF wf, of 50] by simp
  ultimately show ?thesis
    using cache_wf_GetLast [OF wf, of n] GetLast_negative [OF cnt, of n] cnt by blast
qed

theorem GetLast_total_for_nonnegative_witness:
  "\<exists>c0 c. NewRecentMessageCache 2 = Inr c0 \<and>
     apply_ops c0 [OpAdd (zeroMessage\<lparr>Id_msg := ''m1''\<rparr>), OpClear,
                   OpAdd (zeroMessage\<lparr>Id_msg := ''m2''\<rparr>)] = Inr c \<and>
     count_rc c = 1 \<and>
     GetLast c (- 1) = Inl MakeLenOutOfRange \<and>
     (\<exists>xs. GetLast c 7 = Inr xs \<and> int (length xs) = 1)"
proof -
  define c0 where "c0 = \<lparr>messages = [zeroMessage, zeroMessage], size_rc = 2, index_rc = 0, count_rc = 0\<rparr>"
  define c where "c = \<lparr>messages = [zeroMessage\<lparr>Id_msg := ''m2''\<rparr>, zeroMessage], size_rc = 2,
                        index_rc = 1, count_rc = 1\<rparr>"
  have new: "NewRecentMessageCache 2 = Inr c0"
    by (simp add: NewRecentMessageCache_def c0_def numeral_2_eq_2)
  have ops: "apply_ops c0 [OpAdd (zeroMessage\<lparr>Id_msg := ''m1''\<rparr>), OpClear,
                   OpAdd (zeroMessage\<lparr>Id_msg := ''m2''\<rparr>)] = Inr c"
    by (simp add: c0_def c_def Add_def Clear_def go_mod_def go_div_def Let_def)
  have cnt: "count_rc c = 1" by (simp add: c_def)
  show ?thesis
    using new ops cnt
      GetLast_total_for_nonnegative [OF new ops, of "- 1"]
      GetLast_total_for_nonnegative [OF new ops, of 7]
    by auto
qed

section \<open>Properties of the Subscriber\<close>

lemma NewSubscriber_fresh:
  "NewSubscriber ''sub-1'' ''tenant-a'' ''topic'' (int cap) 0 = Inr (fresh_sub cap)"
  by (simp add: NewSubscriber_def fresh_sub_def)

text \<open>
  What a \<open>CIRCUIT_BREAKER\<close> subscriber does with a full inbox: it closes and returns the
  breaker error when \<open>droppedCount\<close> exceeds 100, and otherwise returns no error and
  leaves the inbox and \<open>droppedCount\<close> as they were.
\<close>

lemma CircuitBreaker_full_send:
  assumes "dropStrategy s = CIRCUIT_BREAKER" "\<not> isClosed s" "chanCap s \<le> length (messageChan s)"
  shows "SendMessages s m =
     (if 100 <s droppedCount s
      then Inr (s\<lparr>messagesRecieved := messagesRecieved s + 1, isClosed := True\<rparr>,
                Some CircuitBreakerTriggered)
      else Inr (s\<lparr>messagesRecieved := messagesRecieved s + 1\<rparr>, None))"
  using assms by (simp add: SendMessages_def handleBackPressure_def Close_def Let_def)





text \<open>
  A call run alone does what \<open>SendMessages\<close> says: the function of the sequential
  reading is the composition of the operations, with nothing in between.
\<close>

lemma send_run_SendMessages: "send_run 7 s SendStart m = Some (SendMessages s m)"
  by (simp add: numeral_eq_Suc send_op_def SendMessages_def handleBackPressure_def Let_def
      split: DropStrategy.splits list.splits)

lemma sum_list_map_update:
  fixes f :: "'a \<Rightarrow> nat"
  shows "i < length xs \<Longrightarrow> sum_list (map f (xs[i := y])) + f (xs ! i) = sum_list (map f xs) + f y"
proof (induction xs arbitrary: i)
  case Nil
  then show ?case by simp
next
  case (Cons x xs)
  then show ?case by (cases i) (simp_all add: add.assoc)
qed

lemma list_ex_update:
  assumes "list_ex P xs" "i < length xs" "P (xs ! i) \<Longrightarrow> P y"
  shows "list_ex P (xs[i := y])"
proof -
  from assms(1) obtain j where j: "j < length xs" "P (xs ! j)"
    by (auto simp: list_ex_iff in_set_conv_nth)
  show ?thesis
  proof (cases "j = i")
    case True
    with j assms have "P y" by simp
    moreover have "y \<in> set (xs[i := y])" using assms(2) by (rule set_update_memI)
    ultimately show ?thesis by (auto simp: list_ex_iff)
  next
    case False
    have "xs[i := y] ! j \<in> set (xs[i := y])" by (rule nth_mem) (simp add: j(1))
    moreover have "P (xs[i := y] ! j)" using False j by simp
    ultimately show ?thesis unfolding list_ex_iff by blast
  qed
qed

lemma send_op_keeps:
  assumes "send_op s pc m = Some (Inr (s', pc'))"
  shows "dropStrategy s' = dropStrategy s \<and> chanCap s' = chanCap s \<and> (isClosed s \<longrightarrow> isClosed s')"
  using assms
  by (cases pc; auto simp: send_op_def Close_def split: if_splits list.splits)

lemma send_op_no_breaker:
  assumes "send_op s pc m = Some (Inr (s', pc'))" "dropStrategy s \<noteq> CIRCUIT_BREAKER" "\<not> breaker_pc pc"
  shows "\<not> breaker_pc pc' \<and> isClosed s' = isClosed s \<and> (pc' = SendDone None \<longleftrightarrow> enqueues pc pc')"
  using assms
  by (cases pc; cases "dropStrategy s";
      auto simp: send_op_def breaker_pc_def enqueues_def split: if_splits list.splits)

lemma send_op_racy:
  assumes "send_op s pc m = Some (Inr (s', pc'))" "isClosed s" "racy_pc pc"
  shows "racy_pc pc'"
  using assms
  by (cases pc; auto simp: send_op_def racy_pc_def split: if_splits list.splits)

lemma send_op_balance:
  assumes "send_op s pc m = Some (Inr (s', pc'))" "dropStrategy s \<noteq> CIRCUIT_BREAKER"
    "\<not> breaker_pc pc" "\<not> (isClosed s \<and> racy_pc pc)"
  shows "messagesRecieved s' + messagesSent s + droppedCount s +
           of_nat (length (messageChan s)) + of_nat (send_weight pc) =
         messagesRecieved s + messagesSent s' + droppedCount s' +
           of_nat (length (messageChan s')) + of_nat (send_weight pc')"
  using assms
  by (cases pc; cases "dropStrategy s";
      auto simp: send_op_def breaker_pc_def racy_pc_def send_weight_def
           split: if_splits list.splits)

lemma loop_op_keeps:
  assumes "loop_op s lp ev now = Some (s', lp')"
  shows "dropStrategy s' = dropStrategy s \<and> chanCap s' = chanCap s \<and> (isClosed s \<longrightarrow> isClosed s') \<and>
    messagesRecieved s' = messagesRecieved s \<and> droppedCount s' = droppedCount s \<and>
    length (messageChan s') \<le> length (messageChan s)"
  using assms
  by (cases lp; cases ev; auto simp: loop_op_def Close_def split: if_splits list.splits)

lemma loop_op_balance:
  assumes "loop_op s lp ev now = Some (s', lp')"
  shows "messagesSent s' + of_nat (length (messageChan s')) + of_nat (loop_weight lp') =
         messagesSent s + of_nat (length (messageChan s)) + (of_nat (loop_weight lp) :: 64 word)"
  using assms
  by (cases lp; cases ev; auto simp: loop_op_def Close_def loop_weight_def split: if_splits list.splits)


lemma balance_step:
  fixes r :: "'a::ab_group_add"
  assumes "r' + s + d + l + w = r + s' + d' + l' + w'" "g' + w = g + w'"
    "r = s + d + l + (lw + g)"
  shows "r' = s' + d' + l' + (lw + g')"
proof -
  have "r' - (s' + d' + l' + (lw + g')) =
      ((r' + s + d + l + w) - (r + s' + d' + l' + w')) + (r - (s + d + l + (lw + g))) -
      ((g' + w) - (g + w'))"
    by (simp add: algebra_simps)
  also have "\<dots> = 0" using assms by simp
  finally show ?thesis by simp
qed

lemma not_list_ex_update:
  assumes "\<not> list_ex P xs" "\<not> P y"
  shows "\<not> list_ex P (xs[i := y])"
  using assms set_update_subset_insert [of xs i y] by (auto simp: list_ex_iff)

lemma op_at:
  fixes lw :: nat
  assumes op: "send_op s pc m = Some (Inr (s', pc'))"
    and strat: "dropStrategy s \<noteq> CIRCUIT_BREAKER"
    and k: "k < length pcs" "pcs ! k = pc"
    and nb: "\<not> list_ex breaker_pc pcs"
    and inv: "(isClosed s \<and> list_ex racy_pc pcs) \<or>
       messagesRecieved s = messagesSent s + droppedCount s + of_nat (length (messageChan s)) +
         of_nat (lw + sum_list (map send_weight pcs))"
  shows "\<not> list_ex breaker_pc (pcs[k := pc']) \<and>
     ((isClosed s' \<and> list_ex racy_pc (pcs[k := pc'])) \<or>
       messagesRecieved s' = messagesSent s' + droppedCount s' + of_nat (length (messageChan s')) +
         of_nat (lw + sum_list (map send_weight (pcs[k := pc']))))"
proof -
  have pc_in: "pc \<in> set pcs" using k nth_mem by auto
  then have nbp: "\<not> breaker_pc pc" using nb by (auto simp: list_ex_iff)
  note nbr = send_op_no_breaker [OF op strat nbp]
  have c1: "\<not> list_ex breaker_pc (pcs[k := pc'])"
    using nb nbr by (intro not_list_ex_update) simp_all
  have c2: "(isClosed s' \<and> list_ex racy_pc (pcs[k := pc'])) \<or>
       messagesRecieved s' = messagesSent s' + droppedCount s' + of_nat (length (messageChan s')) +
         of_nat (lw + sum_list (map send_weight (pcs[k := pc'])))"
  proof (cases "isClosed s \<and> list_ex racy_pc pcs")
    case True
    then have "isClosed s'" using nbr by simp
    moreover have "list_ex racy_pc (pcs[k := pc'])"
    proof (rule list_ex_update)
      show "list_ex racy_pc pcs" using True by simp
      show "k < length pcs" by (rule k(1))
      show "racy_pc pc'" if "racy_pc (pcs ! k)"
        using send_op_racy [OF op] True that k(2) by simp
    qed
    ultimately show ?thesis by simp
  next
    case False
    with inv have bal: "messagesRecieved s = messagesSent s + droppedCount s +
         of_nat (length (messageChan s)) + of_nat (lw + sum_list (map send_weight pcs))"
      by blast
    have "\<not> (isClosed s \<and> racy_pc pc)" using False pc_in by (auto simp: list_ex_iff)
    note d = send_op_balance [OF op strat nbp this]
    have "sum_list (map send_weight (pcs[k := pc'])) + send_weight pc =
          sum_list (map send_weight pcs) + send_weight pc'"
      using sum_list_map_update [OF k(1), of send_weight pc'] k(2) by simp
    then have "(of_nat (sum_list (map send_weight (pcs[k := pc'])) + send_weight pc) :: 64 word) =
          of_nat (sum_list (map send_weight pcs) + send_weight pc')"
      by simp
    then have e: "(of_nat (sum_list (map send_weight (pcs[k := pc']))) :: 64 word) + of_nat (send_weight pc) =
          of_nat (sum_list (map send_weight pcs)) + of_nat (send_weight pc')"
      by (simp only: of_nat_add)
    have "messagesRecieved s' = messagesSent s' + droppedCount s' + of_nat (length (messageChan s')) +
         of_nat (lw + sum_list (map send_weight (pcs[k := pc'])))"
      unfolding of_nat_add by (rule balance_step [OF d e bal [unfolded of_nat_add]])
    then show ?thesis by simp
  qed
  from c1 c2 show ?thesis by simp
qed


lemma hand_off_at:
  fixes lw :: nat
  assumes k: "k < length pcs" "pcs ! k = pc" and pc: "pc = TrySend \<or> pc = BP_Resend"
    and nb: "\<not> list_ex breaker_pc pcs"
    and bal: "r = s + d + word_of_nat (length ([] :: Message list)) +
         (of_nat (0 + sum_list (map send_weight pcs)) :: 64 word)"
  shows "\<not> list_ex breaker_pc (pcs[k := SendDone None]) \<and>
     r = s + d + of_nat (length ([] :: Message list)) +
         of_nat (1 + sum_list (map send_weight (pcs[k := SendDone None])))"
proof -
  have c1: "\<not> list_ex breaker_pc (pcs[k := SendDone None])"
    using nb by (intro not_list_ex_update) (simp_all add: breaker_pc_def)
  have "sum_list (map send_weight (pcs[k := SendDone None])) + send_weight pc =
        sum_list (map send_weight pcs) + send_weight (SendDone None)"
    using sum_list_map_update [OF k(1), of send_weight "SendDone None"] k(2) by simp
  moreover have "send_weight pc = 1" "send_weight (SendDone None) = 0"
    using pc by (auto simp: send_weight_def)
  ultimately have "1 + sum_list (map send_weight (pcs[k := SendDone None])) =
        0 + sum_list (map send_weight pcs)" by simp
  then show ?thesis using c1 bal by simp
qed

lemma sys_pcs_send_update:
  assumes "i < length (sys_sends sys)"
  shows "sys_pcs (sys\<lparr>sys_sends := (sys_sends sys)[i := (pc', m)]\<rparr>) = (sys_pcs sys)[i := pc']"
    "i < length (sys_pcs sys)" "sys_pcs sys ! i = fst (sys_sends sys ! i)"
  using assms by (simp_all add: sys_pcs_def map_update list_update_append1 nth_append)

lemma sys_pcs_replay_update:
  assumes "sys_replay sys = ReplaySending pc m ms"
  shows "sys_pcs (sys\<lparr>sys_replay := ReplaySending pc' m' ms'\<rparr>) =
           (sys_pcs sys)[length (sys_sends sys) := pc']"
    "length (sys_sends sys) < length (sys_pcs sys)" "sys_pcs sys ! length (sys_sends sys) = pc"
  using assms by (simp_all add: sys_pcs_def replay_pcs_def nth_append list_update_append)

lemma sys_step_inv:
  assumes st: "sys_step sys ev = Some sys'"
    and strat: "dropStrategy (sys_sub sys) \<noteq> CIRCUIT_BREAKER"
    and nb: "\<not> list_ex breaker_pc (sys_pcs sys)"
    and inv: "send_on_closed_pending sys \<or> balance sys"
  shows "dropStrategy (sys_sub sys') \<noteq> CIRCUIT_BREAKER \<and>
         \<not> list_ex breaker_pc (sys_pcs sys') \<and>
         (send_on_closed_pending sys' \<or> balance sys')"
proof (cases ev)
  case (EvPublish msg)
  with st have sys': "sys' = sys\<lparr>sys_sends := sys_sends sys @ [(SendStart, msg)]\<rparr>"
    by (simp add: sys_step_def)
  show ?thesis using strat nb inv unfolding sys'
    by (auto simp: sys_pcs_def send_on_closed_pending_def balance_def in_transit_def
        breaker_pc_def racy_pc_def send_weight_def)
next
  case (EvSend i)
  with st obtain pc msg s' pc' where i: "i < length (sys_sends sys)"
    and th: "sys_sends sys ! i = (pc, msg)"
    and op: "send_op (sys_sub sys) pc msg = Some (Inr (s', pc'))"
    and sys': "sys' = sys\<lparr>sys_sub := s', sys_sends := (sys_sends sys)[i := (pc', msg)]\<rparr>"
    by (auto simp: sys_step_def split: if_splits prod.splits option.splits sum.splits)
  note u = sys_pcs_send_update [OF i]
  have pcs': "sys_pcs sys' = (sys_pcs sys)[i := pc']"
    unfolding sys' using u(1) [of pc' msg] by (simp add: sys_pcs_def)
  have k2: "sys_pcs sys ! i = pc" using u(3) th by simp
  from op_at [OF op strat u(2) k2 nb, of "loop_weight (sys_loop sys)"] inv
  have "\<not> list_ex breaker_pc (sys_pcs sys') \<and> (send_on_closed_pending sys' \<or> balance sys')"
    unfolding pcs' by (simp add: send_on_closed_pending_def balance_def in_transit_def sys' pcs' [unfolded sys'])
  moreover have "dropStrategy (sys_sub sys') \<noteq> CIRCUIT_BREAKER"
    using send_op_keeps [OF op] strat by (simp add: sys')
  ultimately show ?thesis by simp
next
  case (EvSendHandOff i)
  with st obtain pc msg where i: "i < length (sys_sends sys)"
    and th: "sys_sends sys ! i = (pc, msg)"
    and ready: "hand_off_ready sys pc"
    and sys': "sys' = sys\<lparr>sys_loop := LoopWriting msg,
                           sys_sends := (sys_sends sys)[i := (SendDone None, msg)]\<rparr>"
    by (auto simp: sys_step_def split: if_splits prod.splits)
  note u = sys_pcs_send_update [OF i]
  have pcs': "sys_pcs sys' = (sys_pcs sys)[i := SendDone None]"
    unfolding sys' using u(1) [of "SendDone None" msg] by (simp add: sys_pcs_def)
  have k2: "sys_pcs sys ! i = pc" using u(3) th by simp
  from ready have open_s: "\<not> isClosed (sys_sub sys)" and empty: "messageChan (sys_sub sys) = []"
    and lp: "sys_loop sys = LoopSelect" and pc: "pc = TrySend \<or> pc = BP_Resend"
    by (simp_all add: hand_off_ready_def)
  from inv open_s have "balance sys" by (simp add: send_on_closed_pending_def)
  then have bal: "messagesRecieved (sys_sub sys) =
      messagesSent (sys_sub sys) + droppedCount (sys_sub sys) +
      word_of_nat (length ([] :: Message list)) +
      of_nat (0 + sum_list (map send_weight (sys_pcs sys)))"
    by (simp add: balance_def in_transit_def lp empty loop_weight_def)
  from hand_off_at [OF u(2) k2 pc nb bal]
  have "\<not> list_ex breaker_pc (sys_pcs sys') \<and> balance sys'"
    unfolding pcs' by (simp add: balance_def in_transit_def sys' pcs' [unfolded sys'] empty loop_weight_def)
  then show ?thesis using strat by (simp add: sys')
next
  case EvReplay
  with st have rs: "replay_step sys = Some sys'" by (simp add: sys_step_def)
  show ?thesis
  proof (cases "sys_replay sys")
    case (ReplayNext ms)
    with rs have "sys' = sys\<lparr>sys_replay := ReplayReturned None\<rparr> \<or>
        (\<exists>msg ms'. sys' = sys\<lparr>sys_replay := ReplaySending SendStart msg ms'\<rparr>)"
      by (auto simp: replay_step_def split: list.splits)
    then show ?thesis using strat nb inv ReplayNext
      by (auto simp: sys_pcs_def replay_pcs_def send_on_closed_pending_def balance_def
          in_transit_def breaker_pc_def racy_pc_def send_weight_def)
  next
    case (ReplayReturned r)
    with rs show ?thesis by (simp add: replay_step_def)
  next
    case (ReplaySending pc msg ms)
    show ?thesis
    proof (cases "\<exists>r. pc = SendDone r")
      case True
      with rs ReplaySending have "(\<exists>ms'. sys' = sys\<lparr>sys_replay := ReplayNext ms'\<rparr>) \<or>
          (\<exists>e. sys' = sys\<lparr>sys_replay := ReplayReturned e\<rparr>)"
        by (auto simp: replay_step_def split: option.splits)
      then show ?thesis using strat nb inv ReplaySending True
        by (auto simp: sys_pcs_def replay_pcs_def send_on_closed_pending_def balance_def
            in_transit_def breaker_pc_def racy_pc_def send_weight_def)
    next
      case False
      with rs ReplaySending obtain s' pc' where
        op: "send_op (sys_sub sys) pc msg = Some (Inr (s', pc'))"
        and sys': "sys' = sys\<lparr>sys_sub := s', sys_replay := ReplaySending pc' msg ms,
            replay_log := (if enqueues pc pc' then replay_log sys @ [msg] else replay_log sys)\<rparr>"
        by (cases pc) (auto simp: replay_step_def split: option.splits sum.splits)
      note u = sys_pcs_replay_update [OF ReplaySending]
      have pcs': "sys_pcs sys' = (sys_pcs sys)[length (sys_sends sys) := pc']"
        unfolding sys' using u(1) [of pc' msg ms] by (simp add: sys_pcs_def)
      from op_at [OF op strat u(2) u(3) nb, of "loop_weight (sys_loop sys)"] inv
      have "\<not> list_ex breaker_pc (sys_pcs sys') \<and> (send_on_closed_pending sys' \<or> balance sys')"
        unfolding pcs'
        by (simp add: send_on_closed_pending_def balance_def in_transit_def sys' pcs' [unfolded sys'])
      moreover have "dropStrategy (sys_sub sys') \<noteq> CIRCUIT_BREAKER"
        using send_op_keeps [OF op] strat by (simp add: sys')
      ultimately show ?thesis by simp
    qed
  qed
next
  case EvReplayHandOff
  with st obtain pc msg ms where rp: "sys_replay sys = ReplaySending pc msg ms"
    and ready: "hand_off_ready sys pc"
    and sys': "sys' = sys\<lparr>sys_loop := LoopWriting msg,
                           sys_replay := ReplaySending (SendDone None) msg ms,
                           replay_log := replay_log sys @ [msg]\<rparr>"
    by (auto simp: sys_step_def split: if_splits replay_pc.splits)
  note u = sys_pcs_replay_update [OF rp]
  have pcs': "sys_pcs sys' = (sys_pcs sys)[length (sys_sends sys) := SendDone None]"
    unfolding sys' using u(1) [of "SendDone None" msg ms] by (simp add: sys_pcs_def)
  from ready have open_s: "\<not> isClosed (sys_sub sys)" and empty: "messageChan (sys_sub sys) = []"
    and lp: "sys_loop sys = LoopSelect" and pc: "pc = TrySend \<or> pc = BP_Resend"
    by (simp_all add: hand_off_ready_def)
  from inv open_s have "balance sys" by (simp add: send_on_closed_pending_def)
  then have bal: "messagesRecieved (sys_sub sys) =
      messagesSent (sys_sub sys) + droppedCount (sys_sub sys) +
      word_of_nat (length ([] :: Message list)) +
      of_nat (0 + sum_list (map send_weight (sys_pcs sys)))"
    by (simp add: balance_def in_transit_def lp empty loop_weight_def)
  from hand_off_at [OF u(2) u(3) pc nb bal]
  have "\<not> list_ex breaker_pc (sys_pcs sys') \<and> balance sys'"
    unfolding pcs' by (simp add: balance_def in_transit_def sys' pcs' [unfolded sys'] empty loop_weight_def)
  then show ?thesis using strat by (simp add: sys')
next
  case (EvLoop lev now)
  with st obtain s' lp' where op: "loop_op (sys_sub sys) (sys_loop sys) lev now = Some (s', lp')"
    and sys': "sys' = sys\<lparr>sys_sub := s', sys_loop := lp'\<rparr>"
    by (auto simp: sys_step_def split: option.splits)
  note kp = loop_op_keeps [OF op] and lb = loop_op_balance [OF op]
  have pcs': "sys_pcs sys' = sys_pcs sys" by (simp add: sys' sys_pcs_def)
  have "send_on_closed_pending sys' \<or> balance sys'"
  proof (cases "send_on_closed_pending sys")
    case True
    then show ?thesis using kp by (simp add: send_on_closed_pending_def pcs') (simp add: sys')
  next
    case False
    with inv have "balance sys" by simp
    then have "messagesRecieved s' = messagesSent s' + droppedCount s' +
        of_nat (length (messageChan s')) +
        (of_nat (loop_weight lp') + of_nat (sum_list (map send_weight (sys_pcs sys))))"
      using kp lb by (simp add: balance_def in_transit_def algebra_simps)
    then have "balance sys'" by (simp add: balance_def in_transit_def sys' pcs' [unfolded sys'])
    then show ?thesis by simp
  qed
  then show ?thesis using strat nb kp by (simp add: pcs') (simp add: sys')
next
  case EvClose
  with st have sys': "sys' = sys\<lparr>sys_sub := Close (sys_sub sys)\<rparr>" by (simp add: sys_step_def)
  show ?thesis using strat nb inv unfolding sys'
    by (auto simp: sys_pcs_def send_on_closed_pending_def balance_def in_transit_def Close_def)
qed


lemma run_sys_inv:
  assumes "run_sys sys evs = Some sys'"
    "dropStrategy (sys_sub sys) \<noteq> CIRCUIT_BREAKER"
    "\<not> list_ex breaker_pc (sys_pcs sys)"
    "send_on_closed_pending sys \<or> balance sys"
  shows "dropStrategy (sys_sub sys') \<noteq> CIRCUIT_BREAKER \<and>
         \<not> list_ex breaker_pc (sys_pcs sys') \<and>
         (send_on_closed_pending sys' \<or> balance sys')"
  using assms
proof (induction evs arbitrary: sys)
  case Nil
  then show ?case by simp
next
  case (Cons ev evs)
  from Cons.prems(1) obtain sys1 where st: "sys_step sys ev = Some sys1"
    and run: "run_sys sys1 evs = Some sys'"
    by (auto split: option.splits)
  from sys_step_inv [OF st Cons.prems(2,3,4)] show ?case
    by (intro Cons.IH [OF run]) simp_all
qed

lemma racy_weight: "list_ex racy_pc pcs \<Longrightarrow> 0 < sum_list (map send_weight pcs)"
  by (induction pcs) (auto simp: racy_pc_def send_weight_def)

lemma quiescent_accounted:
  assumes "quiescent sys" "send_on_closed_pending sys \<or> balance sys"
  shows "accounted (sys_sub sys)"
proof -
  from assms(1) have z: "in_transit sys = 0" by (simp add: quiescent_def)
  then have "sum_list (map send_weight (sys_pcs sys)) = 0" by (simp add: in_transit_def)
  with racy_weight [of "sys_pcs sys"] have "\<not> send_on_closed_pending sys"
    by (auto simp: send_on_closed_pending_def)
  with assms(2) have "balance sys" by simp
  with z show ?thesis by (simp add: balance_def accounted_def)
qed

lemma start_sys_inv:
  "accounted s \<Longrightarrow> balance (start_sys s recent) \<and> \<not> list_ex breaker_pc (sys_pcs (start_sys s recent))"
  by (simp add: start_sys_def balance_def accounted_def in_transit_def sys_pcs_def
      replay_pcs_def loop_weight_def)

text \<open>
  C3, as stated, fails on a subscriber as \<open>NewSubscriber\<close> makes it (\<open>DROP_OLDEST\<close>, here
  with capacity 1), in a run in which nothing fails: one message is published and put
  into the inbox, and \<open>sendLoop\<close> takes it out to write it. While the write is under way
  the subscriber has received 1, sent 0, dropped 0 and its inbox is empty. If the write
  then fails, \<open>sendLoop\<close> closes the subscriber and returns, and the counters stay so:
  the equation fails at close too.

  Two more runs show what the amended statement has to leave out. In the third run a
  second \<open>SendMessages\<close> call has found the inbox full when \<open>sendLoop\<close> empties it, fails to
  write and closes the subscriber: the first \<open>select\<close> of \<open>handleBackPressure\<close> then
  receives the zero value of the closed channel, a drop is counted for a message that
  never was, and the call is about to panic on its send. In the fourth the subscriber is
  a \<open>CIRCUIT_BREAKER\<close> one (a value of the type only: the program makes none), and a
  message that found the inbox full is discarded without being counted.
\<close>

theorem drop_accounting_counterexample:
  "NewSubscriber ''sub-1'' ''tenant-a'' ''topic'' 1 0 = Inr (fresh_sub 1) \<and>
   accounted (fresh_sub 1) \<and>
   run_sys (start_sys (fresh_sub 1) [])
       [EvPublish zeroMessage, EvSend 0, EvSend 0, EvLoop RecvMsg 5] =
     Some \<lparr>sys_sub = (fresh_sub 1)\<lparr>messagesRecieved := 1\<rparr>,
           sys_loop = LoopWriting zeroMessage,
           sys_sends = [(SendDone None, zeroMessage)],
           sys_replay = ReplayNext [], replay_log = []\<rparr> \<and>
   \<not> accounted ((fresh_sub 1)\<lparr>messagesRecieved := 1\<rparr>) \<and>
   run_sys (start_sys (fresh_sub 1) [])
       [EvPublish zeroMessage, EvSend 0, EvSend 0, EvLoop RecvMsg 5,
        EvLoop (WriteEnds False) 6, EvLoop Proceed 7] =
     Some \<lparr>sys_sub = (fresh_sub 1)\<lparr>messagesRecieved := 1, isClosed := True\<rparr>,
           sys_loop = LoopReturned True,
           sys_sends = [(SendDone None, zeroMessage)],
           sys_replay = ReplayNext [], replay_log = []\<rparr> \<and>
   \<not> accounted ((fresh_sub 1)\<lparr>messagesRecieved := 1, isClosed := True\<rparr>) \<and>
   run_sys (start_sys (fresh_sub 1) [])
       [EvPublish msg1, EvSend 0, EvSend 0, EvPublish msg2, EvSend 1, EvSend 1,
        EvLoop RecvMsg 5, EvLoop (WriteEnds False) 6, EvLoop Proceed 7,
        EvSend 1, EvSend 1] =
     Some \<lparr>sys_sub = (fresh_sub 1)\<lparr>messagesRecieved := 2, droppedCount := 1, isClosed := True\<rparr>,
           sys_loop = LoopReturned True,
           sys_sends = [(SendDone None, msg1), (BP_Resend, msg2)],
           sys_replay = ReplayNext [], replay_log = []\<rparr> \<and>
   send_on_closed_pending
     \<lparr>sys_sub = (fresh_sub 1)\<lparr>messagesRecieved := 2, droppedCount := 1, isClosed := True\<rparr>,
      sys_loop = LoopReturned True,
      sys_sends = [(SendDone None, msg1), (BP_Resend, msg2)],
      sys_replay = ReplayNext [], replay_log = []\<rparr> \<and>
   \<not> balance
     \<lparr>sys_sub = (fresh_sub 1)\<lparr>messagesRecieved := 2, droppedCount := 1, isClosed := True\<rparr>,
      sys_loop = LoopReturned True,
      sys_sends = [(SendDone None, msg1), (BP_Resend, msg2)],
      sys_replay = ReplayNext [], replay_log = []\<rparr> \<and>
   send_op ((fresh_sub 1)\<lparr>messagesRecieved := 2, droppedCount := 1, isClosed := True\<rparr>)
       BP_Resend msg2 = Some (Inl SendOnClosedChannel) \<and>
   run_sys (start_sys ((fresh_sub 1)\<lparr>dropStrategy := CIRCUIT_BREAKER\<rparr>) [])
       [EvPublish msg1, EvSend 0, EvSend 0,
        EvPublish msg2, EvSend 1, EvSend 1, EvSend 1, EvSend 1] =
     Some \<lparr>sys_sub = (fresh_sub 1)\<lparr>dropStrategy := CIRCUIT_BREAKER, messageChan := [msg1],
                                    messagesRecieved := 2\<rparr>,
           sys_loop = LoopSelect,
           sys_sends = [(SendDone None, msg1), (SendDone None, msg2)],
           sys_replay = ReplayNext [], replay_log = []\<rparr> \<and>
   \<not> accounted ((fresh_sub 1)\<lparr>dropStrategy := CIRCUIT_BREAKER, messageChan := [msg1],
                                messagesRecieved := 2\<rparr>)"
  by (simp add: NewSubscriber_def fresh_sub_def accounted_def start_sys_def sys_step_def
      send_op_def loop_op_def Close_def send_on_closed_pending_def balance_def in_transit_def
      sys_pcs_def replay_pcs_def racy_pc_def loop_weight_def send_weight_def word_sless_alt)

text \<open>
  C3, amended. For a subscriber whose strategy is not \<open>CIRCUIT_BREAKER\<close>, started in a
  state in which the equation holds (the state that \<open>NewSubscriber\<close> returns is one), in
  every interleaving of the operations of \<open>SendMessages\<close> calls, of the replay, of
  \<open>sendLoop\<close> and of \<open>Close\<close>, at all times
  \<open>received = sent + dropped + length inbox + in_transit\<close>, in the 64-bit arithmetic of
  the counters, unless a \<open>SendMessages\<close> call is on its way to a send on the closed
  channel, where it panics. In particular \<open>received = sent + dropped + length inbox\<close>
  whenever no message is in transit, before and after close.
\<close>

theorem drop_accounting_amended:
  assumes "dropStrategy s \<noteq> CIRCUIT_BREAKER" "accounted s"
    "run_sys (start_sys s recent) evs = Some sys'"
  shows "(send_on_closed_pending sys' \<or> balance sys') \<and>
         (quiescent sys' \<longrightarrow> accounted (sys_sub sys'))"
proof -
  from start_sys_inv [OF assms(2), of recent]
  have "send_on_closed_pending (start_sys s recent) \<or> balance (start_sys s recent)"
    and "\<not> list_ex breaker_pc (sys_pcs (start_sys s recent))" by simp_all
  moreover have "dropStrategy (sys_sub (start_sys s recent)) \<noteq> CIRCUIT_BREAKER"
    using assms(1) by (simp add: start_sys_def)
  ultimately have "send_on_closed_pending sys' \<or> balance sys'"
    using run_sys_inv [OF assms(3)] by simp
  then show ?thesis using quiescent_accounted by blast
qed

theorem drop_accounting_amended_witness:
  "run_sys (start_sys (fresh_sub 1) [])
       [EvPublish msg1, EvSend 0, EvSend 0, EvPublish msg2, EvSend 1, EvLoop RecvMsg 5,
        EvSend 1, EvLoop (WriteEnds True) 6, EvLoop Proceed 7, EvLoop Proceed 8,
        EvPublish msg3, EvSend 2, EvSend 2, EvSend 2, EvSend 2, EvSend 2] =
     Some \<lparr>sys_sub = (fresh_sub 1)\<lparr>messageChan := [msg3], droppedCount := 1,
                                    messagesRecieved := 3, messagesSent := 1, lastActive := 8\<rparr>,
           sys_loop = LoopSelect,
           sys_sends = [(SendDone None, msg1), (SendDone None, msg2), (SendDone None, msg3)],
           sys_replay = ReplayNext [], replay_log = []\<rparr> \<and>
   accounted ((fresh_sub 1)\<lparr>messageChan := [msg3], droppedCount := 1,
                              messagesRecieved := 3, messagesSent := 1, lastActive := 8\<rparr>)"
proof -
  let ?evs = "[EvPublish msg1, EvSend 0, EvSend 0, EvPublish msg2, EvSend 1, EvLoop RecvMsg 5,
        EvSend 1, EvLoop (WriteEnds True) 6, EvLoop Proceed 7, EvLoop Proceed 8,
        EvPublish msg3, EvSend 2, EvSend 2, EvSend 2, EvSend 2, EvSend 2]"
  let ?sys' = "\<lparr>sys_sub = (fresh_sub 1)\<lparr>messageChan := [msg3], droppedCount := 1,
                                    messagesRecieved := 3, messagesSent := 1, lastActive := 8\<rparr>,
           sys_loop = LoopSelect,
           sys_sends = [(SendDone None, msg1), (SendDone None, msg2), (SendDone None, msg3)],
           sys_replay = ReplayNext [], replay_log = []\<rparr>"
  have h1: "dropStrategy (fresh_sub 1) \<noteq> CIRCUIT_BREAKER" by (simp add: fresh_sub_def)
  have h2: "accounted (fresh_sub 1)" by (simp add: fresh_sub_def accounted_def)
  have h3: "run_sys (start_sys (fresh_sub 1) []) ?evs = Some ?sys'"
    by (simp add: fresh_sub_def start_sys_def sys_step_def send_op_def loop_op_def)
  have q: "quiescent ?sys'"
    by (simp add: quiescent_def in_transit_def sys_pcs_def replay_pcs_def loop_weight_def
        send_weight_def)
  from drop_accounting_amended [OF h1 h2 h3] q h3 show ?thesis by simp
qed



section \<open>Properties of float64 rounding\<close>

lemma binade_bounds:
  assumes "x \<noteq> 0"
  shows "2 powi (binade x) \<le> \<bar>x\<bar>" and "\<bar>x\<bar> < 2 powi (binade x + 1)"
proof -
  define a where "a = \<bar>x\<bar>"
  have a: "0 < a" using assms by (simp add: a_def)
  have "2 powi (binade x) \<le> a \<and> a < 2 powi (binade x + 1)"
  proof (cases "1 \<le> a")
    case True
    define n where "n = \<lfloor>a\<rfloor>"
    have n: "1 \<le> n" using True by (simp add: n_def)
    then have bl: "1 \<le> bitlen n" using bitlen_nonneg [of n] bitlen_eq_zero_iff [of n] by linarith
    define e where "e = bitlen n - 1"
    have e: "0 \<le> e" "binade x = e" using bl True by (simp_all add: e_def binade_def a_def n_def Let_def)
    from bitlen_bounds [of n] n have b: "2 ^ nat e \<le> n" "n < 2 ^ nat (e + 1)"
      by (simp_all add: e_def)
    have "(2::rat) powi e = of_int (2 ^ nat e)" using e by (simp add: power_int_nonneg_exp)
    also have "\<dots> \<le> of_int n" using b(1) by (simp only: of_int_le_iff)
    also have "\<dots> \<le> a" by (simp add: n_def)
    finally have lo: "2 powi e \<le> a" .
    have "a < of_int (n + 1)" using floor_correct [of a] by (simp add: n_def)
    also have "\<dots> \<le> of_int (2 ^ nat (e + 1))" using b(2) by (simp only: of_int_le_iff)
    also have "\<dots> = (2::rat) powi (e + 1)" using e by (simp add: power_int_nonneg_exp)
    finally have hi: "a < 2 powi (e + 1)" .
    show ?thesis using lo hi e by simp
  next
    case False
    define z where "z = 1 / a"
    have z: "1 < z" using False a by (simp add: z_def)
    define m where "m = \<lceil>z\<rceil> - 1"
    have "2 \<le> \<lceil>z\<rceil>" using z by (simp add: le_ceiling_iff)
    then have m: "1 \<le> m" by (simp add: m_def)
    have mz: "of_int m < z" "z \<le> of_int (m + 1)"
      using ceiling_correct [of z] by (simp_all add: m_def)
    define k where "k = bitlen m"
    have k: "1 \<le> k" using m bitlen_nonneg [of m] bitlen_eq_zero_iff [of m] unfolding k_def by linarith
    have bin: "binade x = - k" using False by (simp add: binade_def a_def [symmetric] Let_def k_def m_def z_def)
    from bitlen_bounds [of m] m have b: "2 ^ nat (k - 1) \<le> m" "m < 2 ^ nat k"
      by (simp_all add: k_def)
    have "z \<le> of_int (2 ^ nat k)" using mz(2) b(2)
      by (meson of_int_le_iff order_trans zless_imp_add1_zle)
    then have zk: "z \<le> 2 ^ nat k" by simp
    have "(2::rat) powi (- k) = 1 / 2 ^ nat k" using k by (simp add: power_int_def field_simps)
    also have "\<dots> \<le> 1 / z" using zk z by (intro divide_left_mono) simp_all
    also have "\<dots> = a" using a by (simp add: z_def)
    finally have lo: "2 powi (- k) \<le> a" .
    have "(2::rat) ^ nat (k - 1) = of_int (2 ^ nat (k - 1))" by simp
    also have "\<dots> \<le> of_int m" using b(1) by (simp only: of_int_le_iff)
    also have "\<dots> < z" using mz(1) .
    finally have kz: "(2::rat) ^ nat (k - 1) < z" .
    have "a = 1 / z" using a by (simp add: z_def)
    also have "\<dots> < 1 / 2 ^ nat (k - 1)" using kz z by (intro divide_strict_left_mono) simp_all
    also have "\<dots> = (2::rat) powi (- k + 1)"
    proof (cases "k = 1")
      case True
      then show ?thesis by simp
    next
      case False
      then have "- k + 1 < 0" "nat (k - 1) = nat (- (- k + 1))" using k by simp_all
      then show ?thesis by (simp add: power_int_def field_simps)
    qed
    finally have hi: "a < 2 powi (- k + 1)" .
    show ?thesis using lo hi bin by simp
  qed
  then show "2 powi (binade x) \<le> \<bar>x\<bar>" and "\<bar>x\<bar> < 2 powi (binade x + 1)"
    by (simp_all add: a_def)
qed


lemma round_half_even_of_int: "round_half_even (of_int k) = k"
  by (simp add: round_half_even_def)

lemma round_half_even_floor: "\<lfloor>y\<rfloor> \<le> round_half_even y" "round_half_even y \<le> \<lfloor>y\<rfloor> + 1"
  by (simp_all add: round_half_even_def Let_def)

lemma round_half_even_ge:
  assumes "of_int k \<le> y"
  shows "k \<le> round_half_even y"
proof -
  from assms have "k \<le> \<lfloor>y\<rfloor>" by (simp add: le_floor_iff)
  then show ?thesis using round_half_even_floor(1) [of y] by linarith
qed

lemma round_half_even_le:
  assumes "y \<le> of_int k"
  shows "round_half_even y \<le> k"
proof (cases "y = of_int k")
  case True
  then show ?thesis by (simp add: round_half_even_of_int)
next
  case False
  with assms have "y < of_int k" by simp
  then have "\<lfloor>y\<rfloor> < k" by (simp add: floor_less_iff)
  then show ?thesis using round_half_even_floor(2) [of y] by linarith
qed

lemma round_half_even_mono:
  assumes "y1 \<le> y2"
  shows "round_half_even y1 \<le> round_half_even y2"
proof (cases "\<lfloor>y1\<rfloor> = \<lfloor>y2\<rfloor>")
  case True
  then show ?thesis using assms by (auto simp: round_half_even_def Let_def)
next
  case False
  then have "\<lfloor>y1\<rfloor> < \<lfloor>y2\<rfloor>" using floor_mono [OF assms] by simp
  then show ?thesis
    using round_half_even_floor(2) [of y1] round_half_even_floor(1) [of y2] by linarith
qed

lemma binade_mono:
  assumes "0 < x" "x \<le> y"
  shows "binade x \<le> binade y"
proof -
  have "2 powi (binade x) \<le> x" using binade_bounds(1) [of x] assms by simp
  also have "\<dots> \<le> y" by fact
  also have "\<dots> < 2 powi (binade y + 1)" using binade_bounds(2) [of y] assms by simp
  finally have "(2::rat) powi (binade x) < 2 powi (binade y + 1)" .
  then have "binade x < binade y + 1"
    by (metis linorder_not_le one_le_numeral power_int_increasing)
  then show ?thesis by simp
qed

lemma f64_scaled:
  assumes "0 < x"
  shows "2 ^ 52 \<le> x / 2 powi (binade x - 52)" "x / 2 powi (binade x - 52) < 2 ^ 53"
proof -
  have u: "(2::rat) powi (binade x - 52) = 2 powi (binade x) / 2 ^ 52"
    by (simp add: power_int_diff)
  have u1: "(2::rat) powi (binade x + 1) = 2 powi (binade x) * 2"
    by (simp add: power_int_add)
  have p: "(0::rat) < 2 powi (binade x)" by simp
  show "2 ^ 52 \<le> x / 2 powi (binade x - 52)"
    using binade_bounds(1) [of x] assms p unfolding u by (simp add: field_simps)
  show "x / 2 powi (binade x - 52) < 2 ^ 53"
    using binade_bounds(2) [of x] assms p unfolding u u1 by (simp add: field_simps)
qed

lemma f64_pos_bounds:
  assumes "0 < x"
  shows "2 powi (binade x) \<le> f64 x" "f64 x \<le> 2 powi (binade x + 1)"
proof -
  let ?u = "(2::rat) powi (binade x - 52)"
  have u: "0 < ?u" by simp
  have f: "f64 x = of_int (round_half_even (x / ?u)) * ?u"
    using assms by (simp add: f64_def Let_def)
  have "(of_int (2 ^ 52) :: rat) \<le> x / ?u" using f64_scaled(1) [OF assms] by simp
  then have "2 ^ 52 \<le> round_half_even (x / ?u)" by (rule round_half_even_ge)
  then have "(of_int (2 ^ 52) :: rat) \<le> of_int (round_half_even (x / ?u))"
    by (simp only: of_int_le_iff)
  then have "2 ^ 52 * ?u \<le> f64 x" unfolding f using u by (simp add: mult_right_mono)
  moreover have "2 ^ 52 * ?u = (2::rat) powi (binade x)" by (simp add: power_int_diff)
  ultimately show "2 powi (binade x) \<le> f64 x" by simp
  have "x / ?u \<le> (of_int (2 ^ 53) :: rat)" using f64_scaled(2) [OF assms] by simp
  then have "round_half_even (x / ?u) \<le> 2 ^ 53" by (rule round_half_even_le)
  then have "(of_int (round_half_even (x / ?u)) :: rat) \<le> of_int (2 ^ 53)"
    by (simp only: of_int_le_iff)
  then have "f64 x \<le> 2 ^ 53 * ?u" unfolding f using u by (simp add: mult_right_mono)
  moreover have "2 ^ 53 * ?u = (2::rat) powi (binade x + 1)"
    by (simp add: power_int_diff power_int_add)
  ultimately show "f64 x \<le> 2 powi (binade x + 1)" by simp
qed

lemma f64_mono_pos:
  assumes "0 < x" "x \<le> y"
  shows "f64 x \<le> f64 y"
proof (cases "binade x = binade y")
  case True
  let ?u = "(2::rat) powi (binade y - 52)"
  have u: "0 < ?u" by simp
  have "x / ?u \<le> y / ?u" using assms u by (simp add: divide_right_mono)
  then have "round_half_even (x / ?u) \<le> round_half_even (y / ?u)" by (rule round_half_even_mono)
  then have "(of_int (round_half_even (x / ?u)) :: rat) * ?u \<le> of_int (round_half_even (y / ?u)) * ?u"
    using u by (simp add: mult_right_mono)
  then show ?thesis using assms True by (simp add: f64_def Let_def)
next
  case False
  then have "binade x + 1 \<le> binade y" using binade_mono [OF assms] by simp
  then have "(2::rat) powi (binade x + 1) \<le> 2 powi (binade y)"
    by (intro power_int_increasing) simp_all
  moreover have "f64 x \<le> 2 powi (binade x + 1)" using f64_pos_bounds(2) assms by simp
  moreover have "2 powi (binade y) \<le> f64 y" using f64_pos_bounds(1) [of y] assms by simp
  ultimately show ?thesis by linarith
qed

lemma f64_pos: "0 < x \<Longrightarrow> 0 < f64 x"
  using f64_pos_bounds(1) [of x] zero_less_power_int [of "2::rat" "binade x"] by linarith

lemma f64_of_nat_exact:
  assumes "0 \<le> i" "i < 2 ^ 53"
  shows "f64_of_int i = of_int i"
proof (cases "i = 0")
  case True
  then show ?thesis by (simp add: f64_of_int_def f64_def)
next
  case False
  define x :: rat where "x = of_int i"
  have x: "0 < x" "x < 2 ^ 53" using assms False
    by (simp_all add: x_def)
  define q where "q = 52 - binade x"
  have "(2::rat) powi (binade x) \<le> x" using binade_bounds(1) [of x] x by simp
  also have "\<dots> < 2 powi 53" using x by simp
  finally have "binade x < 53"
    by (metis linorder_not_le one_le_numeral power_int_increasing)
  then have q: "0 \<le> q" by (simp add: q_def)
  have u: "(2::rat) powi (binade x - 52) = 1 / 2 ^ nat q"
    using q by (simp add: q_def power_int_def field_simps)
  have "x / (1 / 2 ^ nat q) = of_int (i * 2 ^ nat q)" by (simp add: x_def)
  then have "round_half_even (x / (1 / 2 ^ nat q)) = i * 2 ^ nat q"
    by (simp only: round_half_even_of_int)
  then have "f64 x = of_int (i * 2 ^ nat q) * (1 / 2 ^ nat q)"
    using x by (simp add: f64_def Let_def u)
  then show ?thesis by (simp add: f64_of_int_def x_def)
qed

lemma binade_minus: "binade (- x) = binade x"
  by (simp add: binade_def)

lemma f64_neg:
  assumes "x < 0"
  shows "f64 x < 0"
proof -
  let ?u = "(2::rat) powi (binade x - 52)"
  have u: "0 < ?u" by simp
  have "2 ^ 52 \<le> (- x) / ?u" using f64_scaled(1) [of "- x"] assms by (simp add: binade_minus)
  then have "x / ?u \<le> of_int (- (2 ^ 52))" by simp
  then have "round_half_even (x / ?u) \<le> - (2 ^ 52)" by (rule round_half_even_le)
  moreover have "(0::int) < 2 ^ 52" by simp
  ultimately have "round_half_even (x / ?u) < 0" by linarith
  then have "(of_int (round_half_even (x / ?u)) :: rat) < 0" by simp
  then have "of_int (round_half_even (x / ?u)) * ?u < 0" using u by (simp add: mult_neg_pos)
  then show ?thesis using assms by (simp add: f64_def Let_def)
qed

lemma f64_eq_0_iff: "f64 x = 0 \<longleftrightarrow> x = 0"
proof
  assume "f64 x = 0"
  then show "x = 0" using f64_pos [of x] f64_neg [of x] by (cases x "0::rat" rule: linorder_cases) simp_all
qed (simp add: f64_def)

section \<open>Health of a subscriber\<close>

lemma tenth_next: "f64 (7205759403792795 / 2 ^ 56) = 7205759403792795 / 2 ^ 56"
  by code_simp

lemma tenth_lt_next: "f64 (1 / 10) < 7205759403792795 / 2 ^ 56"
  by code_simp

lemma dropRate_le_tenth_iff:
  assumes "0 \<le> d" "d < 2 ^ 53" "0 < r" "r \<le> 2 ^ 52"
  shows "f64_div (f64_of_int d) (f64_of_int r) \<le> f64 (1 / 10) \<longleftrightarrow> 10 * d \<le> r"
proof -
  define x :: rat where "x = of_int d / of_int r"
  have r53: "r < 2 ^ 53" using assms(4) by simp
  have rate: "f64_div (f64_of_int d) (f64_of_int r) = f64 x"
    using assms r53 by (simp add: f64_div_def f64_of_nat_exact x_def)
  have rpos: "(0::rat) < of_int r" using assms by simp
  show ?thesis
  proof
    assume "10 * d \<le> r"
    then have "(of_int (10 * d) :: rat) \<le> of_int r" by (simp only: of_int_le_iff)
    then have le: "x \<le> 1 / 10" using rpos by (simp add: x_def field_simps)
    show "f64_div (f64_of_int d) (f64_of_int r) \<le> f64 (1 / 10)"
    proof (cases "d = 0")
      case True
      then have "f64 x = 0" by (simp add: x_def f64_def)
      then show ?thesis using f64_pos [of "1 / 10"] rate by simp
    next
      case False
      then have "0 < x" using assms rpos by (simp add: x_def)
      then show ?thesis using f64_mono_pos [OF _ le] rate by simp
    qed
  next
    assume le: "f64_div (f64_of_int d) (f64_of_int r) \<le> f64 (1 / 10)"
    show "10 * d \<le> r"
    proof (rule ccontr)
      assume "\<not> 10 * d \<le> r"
      then have "r + 1 \<le> 10 * d" by simp
      then have "(of_int (r + 1) :: rat) \<le> of_int (10 * d)" by (simp only: of_int_le_iff)
      then have "(of_int (r + 1) :: rat) / (10 * of_int r) \<le> of_int (10 * d) / (10 * of_int r)"
        using rpos by (intro divide_right_mono) simp_all
      moreover have "(of_int (r + 1) :: rat) / (10 * of_int r) = 1 / 10 + 1 / (10 * of_int r)"
        using rpos by (simp add: field_simps)
      moreover have "(of_int (10 * d) :: rat) / (10 * of_int r) = x"
        by (simp add: x_def)
      ultimately have "1 / 10 + 1 / (10 * of_int r) \<le> x" by simp
      moreover have "(of_int r :: rat) \<le> of_int (2 ^ 52)" using assms(4) by (simp only: of_int_le_iff)
      then have "1 / (10 * 2 ^ 52) \<le> 1 / (10 * (of_int r :: rat))"
        using rpos by (intro divide_left_mono) simp_all
      moreover have "(7205759403792795 / 2 ^ 56 :: rat) \<le> 1 / 10 + 1 / (10 * 2 ^ 52)" by simp
      ultimately have "(7205759403792795 / 2 ^ 56 :: rat) \<le> x" by linarith
      then have "f64 (7205759403792795 / 2 ^ 56) \<le> f64 x" by (intro f64_mono_pos) simp_all
      then have "f64 (1 / 10) < f64 x" using tenth_next tenth_lt_next by simp
      then show False using le rate by simp
    qed
  qed
qed

text \<open>
  C9, as stated, fails at the boundary. With received 10 and dropped 1 the ratio is
  exactly one tenth, which is not strictly below 0.1, and \<open>IsHealthy\<close> returns true: the
  source rejects only a ratio greater than 0.1.
\<close>

theorem IsHealthy_counterexample:
  "IsHealthy ((fresh_sub 100)\<lparr>droppedCount := 1, messagesRecieved := 10\<rparr>) 0 \<and>
   \<not> ((of_int (sint (droppedCount ((fresh_sub 100)\<lparr>droppedCount := 1, messagesRecieved := 10\<rparr>))) /
       of_int (sint (messagesRecieved ((fresh_sub 100)\<lparr>droppedCount := 1, messagesRecieved := 10\<rparr>))) :: rat)
        < 1 / 10)"
  by code_simp

text \<open>
  C9, amended. \<open>IsHealthy\<close> returns true exactly when \<open>lastActive\<close> is at most 60 seconds
  in the past and either \<open>received\<close> is not positive or the \<open>float64\<close> quotient
  \<open>dropped / received\<close> is at most the \<open>float64\<close> constant 0.1. For counters with
  \<open>0 < received \<le> 2\<^sup>5\<^sup>2\<close> and \<open>0 \<le> dropped < 2\<^sup>5\<^sup>3\<close> the rounding of the quotient plays no
  part: the second condition is \<open>10 * dropped \<le> received\<close>, the exact ratio being at
  most one tenth.
\<close>

theorem IsHealthy_amended:
  "(IsHealthy s now \<longleftrightarrow>
      now - lastActive s \<le> 60 * 1000000000 \<and>
      (sint (messagesRecieved s) \<le> 0 \<or>
       f64_div (f64_of_int (sint (droppedCount s))) (f64_of_int (sint (messagesRecieved s)))
         \<le> f64 (1 / 10))) \<and>
   (0 < sint (messagesRecieved s) \<and> sint (messagesRecieved s) \<le> 2 ^ 52 \<and>
    0 \<le> sint (droppedCount s) \<and> sint (droppedCount s) < 2 ^ 53 \<longrightarrow>
      (IsHealthy s now \<longleftrightarrow>
         now - lastActive s \<le> 60 * 1000000000 \<and>
         10 * sint (droppedCount s) \<le> sint (messagesRecieved s)))"
proof -
  have gen: "IsHealthy s now \<longleftrightarrow>
      now - lastActive s \<le> 60 * 1000000000 \<and>
      (sint (messagesRecieved s) \<le> 0 \<or>
       f64_div (f64_of_int (sint (droppedCount s))) (f64_of_int (sint (messagesRecieved s)))
         \<le> f64 (1 / 10))"
    by (auto simp: IsHealthy_def Let_def)
  show ?thesis
    using gen dropRate_le_tenth_iff [of "sint (droppedCount s)" "sint (messagesRecieved s)"]
    by auto
qed

theorem IsHealthy_amended_witness:
  "IsHealthy ((fresh_sub 100)\<lparr>droppedCount := 1, messagesRecieved := 10\<rparr>) 0 \<and>
   \<not> IsHealthy ((fresh_sub 100)\<lparr>droppedCount := 2, messagesRecieved := 10\<rparr>) 0 \<and>
   IsHealthy (fresh_sub 100) 0"
proof -
  let ?s1 = "(fresh_sub 100)\<lparr>droppedCount := 1, messagesRecieved := 10\<rparr>"
  let ?s2 = "(fresh_sub 100)\<lparr>droppedCount := 2, messagesRecieved := 10\<rparr>"
  have r1: "0 < sint (messagesRecieved ?s1) \<and> sint (messagesRecieved ?s1) \<le> 2 ^ 52 \<and>
      0 \<le> sint (droppedCount ?s1) \<and> sint (droppedCount ?s1) < 2 ^ 53"
    by (simp add: fresh_sub_def)
  have r2: "0 < sint (messagesRecieved ?s2) \<and> sint (messagesRecieved ?s2) \<le> 2 ^ 52 \<and>
      0 \<le> sint (droppedCount ?s2) \<and> sint (droppedCount ?s2) < 2 ^ 53"
    by (simp add: fresh_sub_def)
  from IsHealthy_amended [of ?s1 0] r1
  have "IsHealthy ?s1 0 \<longleftrightarrow>
      0 - lastActive ?s1 \<le> 60 * 1000000000 \<and>
      10 * sint (droppedCount ?s1) \<le> sint (messagesRecieved ?s1)"
    by blast
  then have h1: "IsHealthy ?s1 0" by (simp add: fresh_sub_def)
  from IsHealthy_amended [of ?s2 0] r2
  have "IsHealthy ?s2 0 \<longleftrightarrow>
      0 - lastActive ?s2 \<le> 60 * 1000000000 \<and>
      10 * sint (droppedCount ?s2) \<le> sint (messagesRecieved ?s2)"
    by blast
  then have h2: "\<not> IsHealthy ?s2 0" by (simp add: fresh_sub_def)
  from IsHealthy_amended [of "fresh_sub 100" 0]
  have "IsHealthy (fresh_sub 100) 0 \<longleftrightarrow>
      0 - lastActive (fresh_sub 100) \<le> 60 * 1000000000 \<and>
      (sint (messagesRecieved (fresh_sub 100)) \<le> 0 \<or>
       f64_div (f64_of_int (sint (droppedCount (fresh_sub 100))))
         (f64_of_int (sint (messagesRecieved (fresh_sub 100)))) \<le> f64 (1 / 10))"
    by blast
  then have h3: "IsHealthy (fresh_sub 100) 0" by (simp add: fresh_sub_def)
  show ?thesis using h1 h2 h3 by simp
qed

section \<open>Properties of the AddaptiveBufferManager\<close>

lemma go_div_nonneg: "0 \<le> a \<Longrightarrow> 0 < b \<Longrightarrow> go_div a b = a div b"
  by (simp add: go_div_def sgn_if)

lemma wrap_i64_id: "- (2 ^ 63) \<le> x \<Longrightarrow> x < 2 ^ 63 \<Longrightarrow> wrap_i64 x = x"
  by (simp add: wrap_i64_def)

lemma wrap_i32_id: "- (2 ^ 31) \<le> x \<Longrightarrow> x < 2 ^ 31 \<Longrightarrow> wrap_i32 x = x"
  by (simp add: wrap_i32_def)

text \<open>
  C4, as stated, fails for \<open>subscriber_count = 0\<close>. With no subscriber, a heap as large
  as \<open>max_total_memory\<close> and the initial size 1000, the formula of the claim gives 100,
  and \<open>recalculate\<close> returns before it computes or stores anything: the size stays 1000.
\<close>

theorem recalculate_counterexample:
  "recalculate (NewAdaptiveBufferManager 2147483648) 2147483648 = NewAdaptiveBufferManager 2147483648 \<and>
   bufferSize (NewAdaptiveBufferManager 2147483648) = 1000 \<and>
   suncriberCount (NewAdaptiveBufferManager 2147483648) = 0 \<and>
   spec_buffer_size 2147483648 2147483648 0 = 100"
  by (simp add: recalculate_def NewAdaptiveBufferManager_def MaxBufferSize_def spec_buffer_size_def clamp_def)

text \<open>
  C4, amended. With \<open>subscriber_count = 0\<close> a recalculation step leaves the advertised
  size unchanged. With \<open>subscriber_count > 0\<close> it stores
  \<open>clamp ((max 0 (max_total_memory - alloc) / subscriber_count) / 1024) 100 1000\<close>,
  provided the quotient fits the \<open>int32\<close> to which the source converts it before it
  clamps (it does for every \<open>max_total_memory\<close> below 2 TiB). Here \<open>max_total_memory\<close>
  is not negative and \<open>alloc\<close> is below \<open>2\<^sup>6\<^sup>3\<close>.
\<close>

theorem recalculate_amended:
  assumes "0 \<le> maxTotalMemory adm" "maxTotalMemory adm < 2 ^ 63" "0 \<le> alloc" "alloc < 2 ^ 63"
  shows "(suncriberCount adm = 0 \<longrightarrow> recalculate adm alloc = adm) \<and>
         (0 < suncriberCount adm \<and>
          (max 0 (maxTotalMemory adm - alloc) div suncriberCount adm) div 1024 < 2 ^ 31 \<longrightarrow>
            recalculate adm alloc =
              adm\<lparr>bufferSize := spec_buffer_size (maxTotalMemory adm) alloc (suncriberCount adm)\<rparr>)"
proof (intro conjI impI)
  show "recalculate adm alloc = adm" if "suncriberCount adm = 0"
    using that by (simp add: recalculate_def)
next
  assume h: "0 < suncriberCount adm \<and>
          (max 0 (maxTotalMemory adm - alloc) div suncriberCount adm) div 1024 < 2 ^ 31"
  let ?M = "maxTotalMemory adm" and ?n = "suncriberCount adm"
  let ?av = "max 0 (?M - alloc)"
  have cur: "wrap_i64 alloc = alloc" using assms by (simp add: wrap_i64_id)
  have "wrap_i64 (?M - alloc) = ?M - alloc" using assms by (intro wrap_i64_id) simp_all
  then have av: "(if wrap_i64 (?M - wrap_i64 alloc) < 0 then 0 else wrap_i64 (?M - wrap_i64 alloc)) = ?av"
    using cur by (simp add: max_def)
  have av_rng: "0 \<le> ?av" "?av < 2 ^ 63" using assms by (simp_all add: max_def)
  have "?av div ?n \<le> ?av div 1"
    using h av_rng by (intro zdiv_mono2) simp_all
  then have q_rng: "0 \<le> ?av div ?n" "?av div ?n \<le> ?av"
    using h av_rng by (simp_all add: pos_imp_zdiv_nonneg_iff)
  have per: "wrap_i64 (go_div ?av ?n) = ?av div ?n"
    using h av_rng q_rng by (simp add: go_div_nonneg wrap_i64_id)
  have b_rng: "0 \<le> (?av div ?n) div 1024" using q_rng by (simp add: pos_imp_zdiv_nonneg_iff)
  have buf: "wrap_i32 (go_div (?av div ?n) AvgMessSize) = (?av div ?n) div 1024"
    using h q_rng b_rng by (simp add: AvgMessSize_def go_div_nonneg wrap_i32_id)
  have n1: "max 1 ?n = ?n" using h by simp
  show "recalculate adm alloc = adm\<lparr>bufferSize := spec_buffer_size ?M alloc ?n\<rparr>"
    using h unfolding recalculate_def Let_def av per buf spec_buffer_size_def n1 clamp_def
    by (simp add: MinBifferSize_def MaxBufferSize_def)
qed

theorem recalculate_amended_witness:
  "recalculate \<lparr>maxTotalMemory = 2147483648, suncriberCount = 3000, bufferSize = 1000\<rparr> 5000000 =
     \<lparr>maxTotalMemory = 2147483648, suncriberCount = 3000, bufferSize = 697\<rparr> \<and>
   recalculate \<lparr>maxTotalMemory = 2147483648, suncriberCount = 0, bufferSize = 640\<rparr> 5000000 =
     \<lparr>maxTotalMemory = 2147483648, suncriberCount = 0, bufferSize = 640\<rparr>"
  using recalculate_amended [of "\<lparr>maxTotalMemory = 2147483648, suncriberCount = 3000, bufferSize = 1000\<rparr>" 5000000]
    recalculate_amended [of "\<lparr>maxTotalMemory = 2147483648, suncriberCount = 0, bufferSize = 640\<rparr>" 5000000]
  by (simp add: spec_buffer_size_def clamp_def)


section \<open>Properties of the AdaptiveThrottler\<close>

lemma armed_until_run:
  assumes "armed_until (t + ThrottleDuration (config th)) th"
    "\<forall>(t', ev) \<in> set evs. t' < t + ThrottleDuration (config th)"
    "t \<le> t0"
    "run_throttle t0 th evs = Some th'"
  shows "isThrottling th'"
  using assms
proof (induction evs arbitrary: t0 th)
  case Nil
  then show ?case by (simp add: armed_until_def)
next
  case (Cons e evs)
  obtain t1 ev where e: "e = (t1, ev)" by (cases e)
  from Cons.prems e have t1: "t0 \<le> t1" "t1 < t + ThrottleDuration (config th)"
    by (auto split: if_splits)
  show ?case
  proof (cases ev)
    case Arm
    let ?th1 = "StartThrottling th t1"
    have cfg: "config ?th1 = config th" by (simp add: StartThrottling_def)
    have "armed_until (t + ThrottleDuration (config ?th1)) ?th1"
      using Cons.prems(1,3) t1 by (auto simp: armed_until_def StartThrottling_def)
    moreover have "\<forall>(t', ev) \<in> set evs. t' < t + ThrottleDuration (config ?th1)"
      using Cons.prems(2) cfg by simp
    moreover have "run_throttle t1 ?th1 evs = Some th'"
      using Cons.prems(4) e Arm t1 by simp
    ultimately show ?thesis using Cons.IH [of ?th1 t1] Cons.prems(3) t1 by simp
  next
    case (TimerFire i)
    have "timer_fire th i t1 = None"
    proof (cases "i < length (disarmTimers th)")
      case True
      then have "disarmTimers th ! i \<in> set (disarmTimers th)" by simp
      with Cons.prems(1) have "t + ThrottleDuration (config th) \<le> disarmTimers th ! i"
        by (simp add: armed_until_def)
      with t1 show ?thesis by (simp add: timer_fire_def)
    next
      case False
      then show ?thesis by (simp add: timer_fire_def)
    qed
    with Cons.prems(4) e TimerFire t1 show ?thesis by simp
  qed
qed

lemma armed_until_run_timers:
  assumes "armed_until (t + ThrottleDuration (config th)) th"
    "\<forall>(t', ev) \<in> set evs. t' < t + ThrottleDuration (config th)"
    "t \<le> t0"
    "run_throttle t0 th evs = Some th'"
  shows "config th' = config th \<and> (\<exists>later. disarmTimers th' = disarmTimers th @ later)"
  using assms
proof (induction evs arbitrary: t0 th)
  case Nil
  then show ?case by simp
next
  case (Cons e evs)
  obtain t1 ev where e: "e = (t1, ev)" by (cases e)
  from Cons.prems e have t1: "t0 \<le> t1" "t1 < t + ThrottleDuration (config th)"
    by (auto split: if_splits)
  show ?case
  proof (cases ev)
    case Arm
    let ?th1 = "StartThrottling th t1"
    have cfg: "config ?th1 = config th" by (simp add: StartThrottling_def)
    have "armed_until (t + ThrottleDuration (config ?th1)) ?th1"
      using Cons.prems(1,3) t1 by (auto simp: armed_until_def StartThrottling_def)
    moreover have "\<forall>(t', ev) \<in> set evs. t' < t + ThrottleDuration (config ?th1)"
      using Cons.prems(2) cfg by simp
    moreover have "run_throttle t1 ?th1 evs = Some th'"
      using Cons.prems(4) e Arm t1 by simp
    ultimately have "config th' = config ?th1 \<and>
        (\<exists>later. disarmTimers th' = disarmTimers ?th1 @ later)"
      using Cons.IH [of ?th1 t1] Cons.prems(3) t1 by simp
    then show ?thesis by (auto simp: StartThrottling_def)
  next
    case (TimerFire i)
    have "timer_fire th i t1 = None"
    proof (cases "i < length (disarmTimers th)")
      case True
      then have "disarmTimers th ! i \<in> set (disarmTimers th)" by simp
      with Cons.prems(1) have "t + ThrottleDuration (config th) \<le> disarmTimers th ! i"
        by (simp add: armed_until_def)
      with t1 show ?thesis by (simp add: timer_fire_def)
    next
      case False
      then show ?thesis by (simp add: timer_fire_def)
    qed
    with Cons.prems(4) e TimerFire t1 show ?thesis by simp
  qed
qed

text \<open>
  C5, as stated, fails for an arm call made during an active window. Armed at 0 s and
  again at 3 s with the default duration of 5 s, the throttler is disarmed at 5 s by the
  timer of the first call, 2 s after the second call; the timer of the second call is
  still pending then, and will clear the flag again at 8 s.
\<close>

theorem throttle_hysteresis_counterexample:
  "ThrottleDuration DefaultConfig = 5000000000 \<and>
   run_throttle 0 (NewAdaptiveThrottler DefaultConfig 0)
       [(0, Arm), (3000000000, Arm), (5000000000, TimerFire 0)] =
     Some ((NewAdaptiveThrottler DefaultConfig 0)\<lparr>isThrottling := False,
                                                     disarmTimers := [8000000000]\<rparr>) \<and>
   isThrottling ((NewAdaptiveThrottler DefaultConfig 0)\<lparr>isThrottling := False,
                                                     disarmTimers := [8000000000]\<rparr>) = False \<and>
   (5000000000 :: int) < 3000000000 + ThrottleDuration DefaultConfig"
  by (simp add: NewAdaptiveThrottler_def DefaultConfig_def StartThrottling_def timer_fire_def
      StopThrottling_def)

text \<open>
  C5, amended. After an arm call at the time \<open>t\<close>, made when no timer of an earlier arm
  call is due before \<open>t + throttle_duration\<close> (as when none is pending), \<open>isThrottling\<close>
  is true after every step that happens before \<open>t + throttle_duration\<close>, whatever arm
  calls and timers make up those steps. The arm calls among them do not extend the window:
  the timer of the call at \<open>t\<close> is still pending after them, can fire at
  \<open>t + throttle_duration\<close>, and clears the flag when it does.
\<close>

theorem throttle_hysteresis_amended:
  assumes "\<forall>x \<in> set (disarmTimers th). t + ThrottleDuration (config th) \<le> x"
    "\<forall>(t', ev) \<in> set evs. t' < t + ThrottleDuration (config th)"
    "run_throttle t (StartThrottling th t) evs = Some th'"
  shows "isThrottling th' \<and>
         (\<exists>th''. timer_fire th' (length (disarmTimers th)) (t + ThrottleDuration (config th)) = Some th'' \<and>
                 \<not> isThrottling th'')"
proof -
  let ?th1 = "StartThrottling th t"
  have a: "armed_until (t + ThrottleDuration (config ?th1)) ?th1"
    using assms(1) by (auto simp: armed_until_def StartThrottling_def)
  have b: "\<forall>(t', ev) \<in> set evs. t' < t + ThrottleDuration (config ?th1)"
    using assms(2) by (simp add: StartThrottling_def)
  have armed: "isThrottling th'" using armed_until_run [of t ?th1 evs t th'] a b assms(3) by simp
  from armed_until_run_timers [of t ?th1 evs t th'] a b assms(3)
  obtain later where "disarmTimers th' = disarmTimers ?th1 @ later" by auto
  then have tm: "disarmTimers th' =
      disarmTimers th @ (t + ThrottleDuration (config th)) # later"
    by (simp add: StartThrottling_def)
  have "timer_fire th' (length (disarmTimers th)) (t + ThrottleDuration (config th)) =
      Some (StopThrottling (th'\<lparr>disarmTimers :=
          take (length (disarmTimers th)) (disarmTimers th') @
          drop (Suc (length (disarmTimers th))) (disarmTimers th')\<rparr>))"
    unfolding timer_fire_def tm by (simp add: nth_append)
  then show ?thesis using armed by (simp add: StopThrottling_def)
qed

theorem throttle_hysteresis_amended_witness:
  "run_throttle 0 (StartThrottling (NewAdaptiveThrottler DefaultConfig 0) 0)
       [(3000000000, Arm), (4000000000, Arm)] =
     Some ((NewAdaptiveThrottler DefaultConfig 0)\<lparr>isThrottling := True,
             disarmTimers := [5000000000, 8000000000, 9000000000]\<rparr>) \<and>
   isThrottling ((NewAdaptiveThrottler DefaultConfig 0)\<lparr>isThrottling := True,
             disarmTimers := [5000000000, 8000000000, 9000000000]\<rparr>) \<and>
   timer_fire ((NewAdaptiveThrottler DefaultConfig 0)\<lparr>isThrottling := True,
             disarmTimers := [5000000000, 8000000000, 9000000000]\<rparr>) 0 5000000000 =
     Some ((NewAdaptiveThrottler DefaultConfig 0)\<lparr>isThrottling := False,
             disarmTimers := [8000000000, 9000000000]\<rparr>)"
proof -
  let ?th = "NewAdaptiveThrottler DefaultConfig 0"
  let ?evs = "[(3000000000, Arm), (4000000000, Arm)] :: (int \<times> throttle_event) list"
  let ?th' = "?th\<lparr>isThrottling := True, disarmTimers := [5000000000, 8000000000, 9000000000]\<rparr>"
  have h1: "\<forall>x \<in> set (disarmTimers ?th). 0 + ThrottleDuration (config ?th) \<le> x"
    by (simp add: NewAdaptiveThrottler_def)
  have h2: "\<forall>(t', ev) \<in> set ?evs. t' < 0 + ThrottleDuration (config ?th)"
    by (simp add: NewAdaptiveThrottler_def DefaultConfig_def)
  have h3: "run_throttle 0 (StartThrottling ?th 0) ?evs = Some ?th'"
    by (simp add: NewAdaptiveThrottler_def DefaultConfig_def StartThrottling_def)
  have fire: "timer_fire ?th' 0 5000000000 =
      Some (?th\<lparr>isThrottling := False, disarmTimers := [8000000000, 9000000000]\<rparr>)"
    by (simp add: timer_fire_def StopThrottling_def NewAdaptiveThrottler_def)
  from throttle_hysteresis_amended [OF h1 h2 h3] h3 fire show ?thesis by simp
qed

lemma f64_of_int_eq_0_iff: "f64_of_int i = 0 \<longleftrightarrow> i = 0"
  by (simp add: f64_of_int_def f64_eq_0_iff)

lemma getCPUUsage_snd: "snd (getCPUUsage th n) = snd (getCPUUsage th' n)"
  by (simp add: getCPUUsage_def Let_def)

lemma getMemoryUsage_snd: "snd (getMemoryUsage th a) = snd (getMemoryUsage th' a)"
  by (simp add: getMemoryUsage_def Let_def)

text \<open>
  C6, as stated, fails in its second case. \<open>lastCheckTime\<close> keeps whole seconds, so the
  time since the last check is measured from the start of the second in which it was
  made. A throttler made at 10 s, with 6 slow subscribers of 10, checks at 11.9 s (100
  goroutines: no throttle) and stores 11. Called again at 12.0 s, 0.1 s later and so
  within the check interval of 1 s, it does not return the cached decision: it samples
  again (900 goroutines), returns true and arms.
\<close>

theorem ShouldThrottle_counterexample:
  "UpdateSubscriber (NewAdaptiveThrottler DefaultConfig 10000000000) 6 10 =
     (NewAdaptiveThrottler DefaultConfig 10000000000)\<lparr>slowSubCount := 6, totalSubCount := 10\<rparr> \<and>
   ShouldThrottle
       ((NewAdaptiveThrottler DefaultConfig 10000000000)\<lparr>slowSubCount := 6, totalSubCount := 10\<rparr>)
       11900000000 100 0 =
     ((NewAdaptiveThrottler DefaultConfig 10000000000)\<lparr>slowSubCount := 6, totalSubCount := 10,
         lastCheckTime := 11, lastCPUUsage := 100000\<rparr>, False) \<and>
   12000000000 - 11900000000 < CheckInterval DefaultConfig \<and>
   ShouldThrottle
       ((NewAdaptiveThrottler DefaultConfig 10000000000)\<lparr>slowSubCount := 6, totalSubCount := 10,
         lastCheckTime := 11, lastCPUUsage := 100000\<rparr>)
       12000000000 900 0 =
     ((NewAdaptiveThrottler DefaultConfig 10000000000)\<lparr>slowSubCount := 6, totalSubCount := 10,
         lastCheckTime := 12, lastCPUUsage := 900000, isThrottling := True,
         disarmTimers := [17000000000]\<rparr>, True)"
  by code_simp

text \<open>
  C6, amended. \<open>ShouldThrottle\<close> returns true, and changes nothing, when \<open>isThrottling\<close>
  is set. Otherwise, when less than \<open>check_interval\<close> has passed since the start of the
  second in which the last check was made (the stored \<open>lastCheckTime\<close>), it returns the
  cached decision, false, without sampling. Otherwise it stores the check time, samples
  CPU and memory, and returns
  \<open>total \<noteq> 0 \<and> slow/total > slow_sub_threshold \<and> (cpu > cpu_threshold \<or> mem > mem_threshold)\<close>,
  arming the throttle exactly when this is true.
\<close>

theorem ShouldThrottle_amended:
  "(isThrottling th \<longrightarrow> ShouldThrottle th now n a = (th, True)) \<and>
   (\<not> isThrottling th \<and> now - lastCheckTime th * 1000000000 < CheckInterval (config th) \<longrightarrow>
      ShouldThrottle th now n a = (th, False)) \<and>
   (\<not> isThrottling th \<and> \<not> now - lastCheckTime th * 1000000000 < CheckInterval (config th) \<longrightarrow>
      ShouldThrottle th now n a =
        (if throttle_decision th n a then StartThrottling (sampled th now n a) now
         else sampled th now n a,
         throttle_decision th n a))"
proof (intro conjI impI)
  assume "isThrottling th"
  then show "ShouldThrottle th now n a = (th, True)" by (simp add: ShouldThrottle_def)
next
  assume "\<not> isThrottling th \<and> now - lastCheckTime th * 1000000000 < CheckInterval (config th)"
  then show "ShouldThrottle th now n a = (th, False)" by (simp add: ShouldThrottle_def)
next
  assume h: "\<not> isThrottling th \<and> \<not> now - lastCheckTime th * 1000000000 < CheckInterval (config th)"
  let ?th1 = "th\<lparr>lastCheckTime := unix_seconds now\<rparr>"
  obtain th2 cpu where c: "getCPUUsage ?th1 n = (th2, cpu)" by (cases "getCPUUsage ?th1 n")
  obtain th3 mem where m: "getMemoryUsage th2 a = (th3, mem)" by (cases "getMemoryUsage th2 a")
  have th2: "config th2 = config th" "slowSubCount th2 = slowSubCount th" "totalSubCount th2 = totalSubCount th"
    using c by (auto simp: getCPUUsage_def Let_def)
  have th3: "config th3 = config th" "slowSubCount th3 = slowSubCount th" "totalSubCount th3 = totalSubCount th"
    using m th2 by (auto simp: getMemoryUsage_def Let_def)
  have s: "sampled th now n a = th3" using c m by (simp add: sampled_def)
  have cpu: "snd (getCPUUsage th n) = cpu" using c getCPUUsage_snd [of th n ?th1] by simp
  have mem: "snd (getMemoryUsage th a) = mem" using m getMemoryUsage_snd [of th a th2] by simp
  show "ShouldThrottle th now n a =
        (if throttle_decision th n a then StartThrottling (sampled th now n a) now
         else sampled th now n a,
         throttle_decision th n a)"
    using h c m th3 unfolding s throttle_decision_def cpu mem
    by (simp add: ShouldThrottle_def Let_def f64_of_int_eq_0_iff)
qed

theorem ShouldThrottle_amended_witness:
  "ShouldThrottle
       ((NewAdaptiveThrottler DefaultConfig 10000000000)\<lparr>slowSubCount := 6, totalSubCount := 10\<rparr>)
       11900000000 900 0 =
     ((NewAdaptiveThrottler DefaultConfig 10000000000)\<lparr>slowSubCount := 6, totalSubCount := 10,
         lastCheckTime := 11, lastCPUUsage := 900000, isThrottling := True,
         disarmTimers := [16900000000]\<rparr>, True) \<and>
   ShouldThrottle
       ((NewAdaptiveThrottler DefaultConfig 10000000000)\<lparr>slowSubCount := 6, totalSubCount := 10\<rparr>)
       10900000000 900 0 =
     ((NewAdaptiveThrottler DefaultConfig 10000000000)\<lparr>slowSubCount := 6, totalSubCount := 10\<rparr>,
      False) \<and>
   ShouldThrottle
       ((NewAdaptiveThrottler DefaultConfig 10000000000)\<lparr>isThrottling := True\<rparr>)
       10900000000 900 0 =
     ((NewAdaptiveThrottler DefaultConfig 10000000000)\<lparr>isThrottling := True\<rparr>, True)"
proof -
  let ?th = "(NewAdaptiveThrottler DefaultConfig 10000000000)\<lparr>slowSubCount := 6, totalSubCount := 10\<rparr>"
  have p: "\<not> isThrottling ?th \<and>
      \<not> 11900000000 - lastCheckTime ?th * 1000000000 < CheckInterval (config ?th)"
    by (simp add: NewAdaptiveThrottler_def DefaultConfig_def unix_seconds_def)
  have q: "\<not> isThrottling ?th \<and>
      10900000000 - lastCheckTime ?th * 1000000000 < CheckInterval (config ?th)"
    by (simp add: NewAdaptiveThrottler_def DefaultConfig_def unix_seconds_def)
  have d: "throttle_decision ?th 900 0" by code_simp
  have s: "StartThrottling (sampled ?th 11900000000 900 0) 11900000000 =
      (NewAdaptiveThrottler DefaultConfig 10000000000)\<lparr>slowSubCount := 6, totalSubCount := 10,
         lastCheckTime := 11, lastCPUUsage := 900000, isThrottling := True,
         disarmTimers := [16900000000]\<rparr>"
    by code_simp
  show ?thesis
    using ShouldThrottle_amended [of ?th 11900000000 900 0]
      ShouldThrottle_amended [of ?th 10900000000 900 0]
      ShouldThrottle_amended [of "(NewAdaptiveThrottler DefaultConfig 10000000000)\<lparr>isThrottling := True\<rparr>"
        10900000000 900 0]
      p q d s
    by simp
qed


section \<open>Properties of Topic and TopicManager\<close>

lemma send_recent_loop_room:
  assumes "\<not> isClosed s" "length (messageChan s) + length ms \<le> chanCap s"
  shows "send_recent_loop s ms =
     Inr (s\<lparr>messageChan := messageChan s @ ms,
             messagesRecieved := messagesRecieved s + of_nat (length ms)\<rparr>)"
  using assms
proof (induction ms arbitrary: s)
  case Nil
  then show ?case by simp
next
  case (Cons m ms)
  let ?s1 = "s\<lparr>messagesRecieved := messagesRecieved s + 1, messageChan := messageChan s @ [m]\<rparr>"
  have step: "SendMessages s m = Inr (?s1, None)"
    using Cons.prems by (simp add: SendMessages_def Let_def)
  have "send_recent_loop ?s1 ms =
      Inr (?s1\<lparr>messageChan := messageChan ?s1 @ ms,
                 messagesRecieved := messagesRecieved ?s1 + of_nat (length ms)\<rparr>)"
    using Cons.prems by (intro Cons.IH) simp_all
  then show ?case using step by (simp add: add.assoc add.commute)
qed

lemma send_recent_loop_breaker_full:
  assumes "dropStrategy s = CIRCUIT_BREAKER" "\<not> isClosed s" "chanCap s \<le> length (messageChan s)"
  shows "\<exists>s'. send_recent_loop s ms = Inr s' \<and> messageChan s' = messageChan s \<and> ID s' = ID s"
  using assms
proof (induction ms arbitrary: s)
  case Nil
  then show ?case by simp
next
  case (Cons m ms)
  show ?case
  proof (cases "100 <s droppedCount s")
    case True
    then show ?thesis using Cons.prems by (simp add: CircuitBreaker_full_send)
  next
    case False
    let ?s1 = "s\<lparr>messagesRecieved := messagesRecieved s + 1\<rparr>"
    have step: "SendMessages s m = Inr (?s1, None)"
      using False Cons.prems by (simp add: CircuitBreaker_full_send)
    from Cons.IH [of ?s1] Cons.prems show ?thesis using step by simp
  qed
qed

lemma SendMessages_inbox:
  assumes "\<not> isClosed s" "SendMessages s m = Inr (s', e)"
  shows "ID s' = ID s \<and>
    (case e of
       Some err \<Rightarrow> messageChan s' = messageChan s \<or> messageChan s' = drop 1 (messageChan s)
     | None \<Rightarrow>
         \<not> isClosed s' \<and>
         (messageChan s' = messageChan s @ [m] \<or>
          messageChan s' = drop 1 (messageChan s @ [m]) \<or>
          (messageChan s' = messageChan s \<and> dropStrategy s' = CIRCUIT_BREAKER \<and>
           chanCap s' \<le> length (messageChan s'))))"
  using assms
  by (cases "dropStrategy s"; cases "messageChan s")
     (auto simp: SendMessages_def handleBackPressure_def Close_def Let_def split: if_splits)

lemma send_recent_loop_inbox:
  assumes "\<not> isClosed s"
  shows "\<exists>s' i j. send_recent_loop s ms = Inr s' \<and> ID s' = ID s \<and> j \<le> length ms \<and>
           messageChan s' = drop i (messageChan s @ take j ms)"
  using assms
proof (induction ms arbitrary: s)
  case Nil
  then show ?case by (auto intro: exI [of _ 0])
next
  case (Cons m ms)
  have "\<exists>s1 e. SendMessages s m = Inr (s1, e)"
    using Cons.prems
    by (cases "dropStrategy s"; cases "messageChan s")
       (auto simp: SendMessages_def handleBackPressure_def Close_def Let_def)
  then obtain s1 e where step: "SendMessages s m = Inr (s1, e)" by blast
  note inbox = SendMessages_inbox [OF Cons.prems step]
  show ?case
  proof (cases e)
    case (Some err)
    then have res: "send_recent_loop s (m # ms) = Inr s1" using step by simp
    from inbox Some have "messageChan s1 = drop 0 (messageChan s @ take 0 (m # ms)) \<or>
        messageChan s1 = drop 1 (messageChan s @ take 0 (m # ms))" by simp
    then show ?thesis using res inbox by (metis le0)
  next
    case None
    then have res: "send_recent_loop s (m # ms) = send_recent_loop s1 ms" using step by simp
    from inbox None have open1: "\<not> isClosed s1" and id1: "ID s1 = ID s" by simp_all
    from inbox None consider
        (enq) "messageChan s1 = messageChan s @ [m]"
      | (evict) "messageChan s1 = drop 1 (messageChan s @ [m])"
      | (discard) "messageChan s1 = messageChan s" "dropStrategy s1 = CIRCUIT_BREAKER"
          "chanCap s1 \<le> length (messageChan s1)"
      by auto
    then show ?thesis
    proof cases
      case enq
      from Cons.IH [OF open1] obtain s' i j where
        r: "send_recent_loop s1 ms = Inr s'" "ID s' = ID s1" "j \<le> length ms"
           "messageChan s' = drop i (messageChan s1 @ take j ms)" by blast
      have "messageChan s' = drop i (messageChan s @ take (Suc j) (m # ms))"
        using r(4) enq by simp
      moreover have "Suc j \<le> length (m # ms)" using r(3) by simp
      ultimately show ?thesis using res r(1,2) id1 by metis
    next
      case evict
      from Cons.IH [OF open1] obtain s' i j where
        r: "send_recent_loop s1 ms = Inr s'" "ID s' = ID s1" "j \<le> length ms"
           "messageChan s' = drop i (messageChan s1 @ take j ms)" by blast
      have e1: "drop 1 (messageChan s @ [m]) @ take j ms = drop 1 ((messageChan s @ [m]) @ take j ms)"
        by (cases "messageChan s") simp_all
      have "messageChan s' = drop i (drop 1 ((messageChan s @ [m]) @ take j ms))"
        using r(4) evict e1 by (simp only:)
      also have "\<dots> = drop (i + 1) (messageChan s @ take (Suc j) (m # ms))"
        by (simp only: drop_drop append_assoc take_Suc_Cons append_Cons append_Nil)
      finally have "messageChan s' = drop (i + 1) (messageChan s @ take (Suc j) (m # ms))" .
      moreover have "Suc j \<le> length (m # ms)" using r(3) by simp
      ultimately show ?thesis using res r(1,2) id1 by metis
    next
      case discard
      from send_recent_loop_breaker_full [OF discard(2) open1 discard(3), of ms] obtain s' where
        r: "send_recent_loop s1 ms = Inr s'" "messageChan s' = messageChan s1" "ID s' = ID s1"
        by blast
      have "messageChan s' = drop 0 (messageChan s @ take 0 (m # ms))"
        using r(2) discard(1) by simp
      then show ?thesis using res r(1,3) id1 by (metis le0)
    qed
  qed
qed


lemma sys_step_keeps:
  assumes "sys_step sys ev = Some sys'"
  shows "dropStrategy (sys_sub sys') = dropStrategy (sys_sub sys) \<and>
         chanCap (sys_sub sys') = chanCap (sys_sub sys) \<and>
         (isClosed (sys_sub sys) \<longrightarrow> isClosed (sys_sub sys'))"
proof (cases ev)
  case (EvSend i)
  with assms obtain pc msg s' pc' where
    "send_op (sys_sub sys) pc msg = Some (Inr (s', pc'))" "sys_sub sys' = s'"
    by (auto simp: sys_step_def split: if_splits prod.splits option.splits sum.splits)
  then show ?thesis using send_op_keeps by blast
next
  case EvReplay
  with assms have rs: "replay_step sys = Some sys'" by (simp add: sys_step_def)
  then have "sys_sub sys' = sys_sub sys \<or>
      (\<exists>pc msg s' pc'. send_op (sys_sub sys) pc msg = Some (Inr (s', pc')) \<and> sys_sub sys' = s')"
    by (auto simp: replay_step_def
        split: replay_pc.splits list.splits send_pc.splits option.splits sum.splits)
  then show ?thesis using send_op_keeps by auto
next
  case (EvLoop lev now)
  with assms obtain s' lp' where
    "loop_op (sys_sub sys) (sys_loop sys) lev now = Some (s', lp')" "sys_sub sys' = s'"
    by (auto simp: sys_step_def split: option.splits)
  then show ?thesis using loop_op_keeps by blast
qed (use assms in \<open>auto simp: sys_step_def Close_def split: if_splits prod.splits replay_pc.splits\<close>)

lemma sys_step_replay_inv:
  assumes st: "sys_step sys ev = Some sys'"
    and strat: "dropStrategy (sys_sub sys) \<noteq> CIRCUIT_BREAKER"
    and inv: "replay_inv recent sys"
  shows "replay_inv recent sys'"
proof (cases ev)
  case EvReplay
  with st have rs: "replay_step sys = Some sys'" by (simp add: sys_step_def)
  show ?thesis
  proof (cases "sys_replay sys")
    case (ReplayNext ms)
    with rs inv show ?thesis
      by (auto simp: replay_step_def replay_inv_def replay_progress_def breaker_pc_def split: list.splits)
  next
    case (ReplayReturned r)
    with rs show ?thesis by (simp add: replay_step_def)
  next
    case (ReplaySending pc msg ms)
    show ?thesis
    proof (cases "\<exists>r. pc = SendDone r")
      case True
      with rs ReplaySending inv show ?thesis
        by (auto simp: replay_step_def replay_inv_def replay_progress_def split: option.splits)
    next
      case False
      with rs ReplaySending obtain s' pc' where
        op: "send_op (sys_sub sys) pc msg = Some (Inr (s', pc'))"
        and sys': "sys' = sys\<lparr>sys_sub := s', sys_replay := ReplaySending pc' msg ms,
            replay_log := (if enqueues pc pc' then replay_log sys @ [msg] else replay_log sys)\<rparr>"
        by (cases pc) (auto simp: replay_step_def split: option.splits sum.splits)
      from inv ReplaySending False have nbp: "\<not> breaker_pc pc"
        and rec: "recent = replay_log sys @ msg # ms"
        by (auto simp: replay_inv_def replay_progress_def)
      from send_op_no_breaker [OF op strat nbp] rec show ?thesis
        by (auto simp: replay_inv_def replay_progress_def sys')
    qed
  qed
next
  case EvReplayHandOff
  with st inv show ?thesis
    by (auto simp: sys_step_def replay_inv_def replay_progress_def hand_off_ready_def
        breaker_pc_def split: if_splits replay_pc.splits)
next
  case (EvPublish msg)
  with st have "sys_replay sys' = sys_replay sys \<and> replay_log sys' = replay_log sys"
    by (auto simp: sys_step_def)
  with inv show ?thesis by (simp add: replay_inv_def)
next
  case (EvSend i)
  with st have "sys_replay sys' = sys_replay sys \<and> replay_log sys' = replay_log sys"
    by (auto simp: sys_step_def split: if_splits prod.splits option.splits sum.splits)
  with inv show ?thesis by (simp add: replay_inv_def)
next
  case (EvSendHandOff i)
  with st have "sys_replay sys' = sys_replay sys \<and> replay_log sys' = replay_log sys"
    by (auto simp: sys_step_def split: if_splits prod.splits)
  with inv show ?thesis by (simp add: replay_inv_def)
next
  case (EvLoop lev now)
  with st have "sys_replay sys' = sys_replay sys \<and> replay_log sys' = replay_log sys"
    by (auto simp: sys_step_def split: option.splits)
  with inv show ?thesis by (simp add: replay_inv_def)
next
  case EvClose
  with st have "sys_replay sys' = sys_replay sys \<and> replay_log sys' = replay_log sys"
    by (auto simp: sys_step_def)
  with inv show ?thesis by (simp add: replay_inv_def)
qed

lemma run_sys_replay_inv:
  assumes "run_sys sys evs = Some sys'" "dropStrategy (sys_sub sys) \<noteq> CIRCUIT_BREAKER"
    "replay_inv recent sys"
  shows "replay_inv recent sys'"
  using assms
proof (induction evs arbitrary: sys)
  case Nil
  then show ?case by simp
next
  case (Cons ev evs)
  from Cons.prems(1) obtain sys1 where st: "sys_step sys ev = Some sys1"
    and run: "run_sys sys1 evs = Some sys'"
    by (auto split: option.splits)
  have "dropStrategy (sys_sub sys1) \<noteq> CIRCUIT_BREAKER"
    using sys_step_keeps [OF st] Cons.prems(2) by simp
  then show ?case
    using Cons.IH [OF run _ sys_step_replay_inv [OF st Cons.prems(2,3)]] by simp
qed

lemma send_op_undisturbed:
  assumes "send_op s pc msg = Some (Inr (s', pc'))" "\<not> isClosed s"
    "dropStrategy s = DROP_OLDEST" "1 \<le> chanCap s" "length (messageChan s) \<le> chanCap s"
    "steady_pc s pc"
  shows "length (messageChan s') \<le> chanCap s' \<and> steady_pc s' pc'"
  using assms
  by (cases pc; auto simp: send_op_def steady_pc_def split: if_splits list.splits)

lemma steady_pc_shrink:
  assumes "steady_pc s pc" "chanCap s' = chanCap s" "length (messageChan s') \<le> length (messageChan s)"
  shows "steady_pc s' pc"
  using assms by (cases pc) (auto simp: steady_pc_def)

lemma sys_step_undisturbed:
  assumes st: "sys_step sys ev = Some sys'" and np: "\<not> is_publish ev"
    and inv: "isClosed (sys_sub sys) \<or> undisturbed sys"
  shows "isClosed (sys_sub sys') \<or> undisturbed sys'"
proof (cases "isClosed (sys_sub sys)")
  case True
  then show ?thesis using sys_step_keeps [OF st] by simp
next
  case False
  note open_s = False
  with inv have u: "undisturbed sys" by simp
  show ?thesis
  proof (cases ev)
    case (EvPublish msg)
    with np show ?thesis by (simp add: is_publish_def)
  next
    case (EvSend i)
    with st u show ?thesis by (simp add: sys_step_def undisturbed_def)
  next
    case (EvSendHandOff i)
    with st u show ?thesis by (simp add: sys_step_def undisturbed_def)
  next
    case EvReplay
    with st have rs: "replay_step sys = Some sys'" by (simp add: sys_step_def)
    show ?thesis
    proof (cases "sys_replay sys")
      case (ReplayNext ms)
      with rs u show ?thesis
        by (auto simp: replay_step_def undisturbed_def steady_replay_def steady_pc_def
            split: list.splits)
    next
      case (ReplayReturned r)
      with rs show ?thesis by (simp add: replay_step_def)
    next
      case (ReplaySending pc msg ms)
      show ?thesis
      proof (cases "\<exists>r. pc = SendDone r")
        case True
        with rs ReplaySending u show ?thesis
          by (auto simp: replay_step_def undisturbed_def steady_replay_def steady_pc_def
              split: option.splits)
      next
        case False
        with rs ReplaySending obtain s' pc' where
          op: "send_op (sys_sub sys) pc msg = Some (Inr (s', pc'))"
          and sys': "sys' = sys\<lparr>sys_sub := s', sys_replay := ReplaySending pc' msg ms,
              replay_log := (if enqueues pc pc' then replay_log sys @ [msg] else replay_log sys)\<rparr>"
          by (cases pc) (auto simp: replay_step_def split: option.splits sum.splits)
        from u ReplaySending have pre: "dropStrategy (sys_sub sys) = DROP_OLDEST"
          "1 \<le> chanCap (sys_sub sys)" "length (messageChan (sys_sub sys)) \<le> chanCap (sys_sub sys)"
          "steady_pc (sys_sub sys) pc"
          and se: "sys_sends sys = []"
          by (simp_all add: undisturbed_def steady_replay_def)
        from send_op_undisturbed [OF op open_s pre] send_op_keeps [OF op] pre(1,2) se
        have "undisturbed sys'" by (simp add: undisturbed_def steady_replay_def sys')
        then show ?thesis by simp
      qed
    qed
  next
    case EvReplayHandOff
    with st u show ?thesis
      by (auto simp: sys_step_def undisturbed_def steady_replay_def steady_pc_def
          hand_off_ready_def split: if_splits replay_pc.splits)
  next
    case (EvLoop lev now)
    with st obtain s' lp' where op: "loop_op (sys_sub sys) (sys_loop sys) lev now = Some (s', lp')"
      and sys': "sys' = sys\<lparr>sys_sub := s', sys_loop := lp'\<rparr>"
      by (auto simp: sys_step_def split: option.splits)
    from loop_op_keeps [OF op] u have "undisturbed sys'"
      using steady_pc_shrink [of "sys_sub sys" _ s']
      by (auto simp: undisturbed_def steady_replay_def sys' split: replay_pc.splits)
    then show ?thesis by simp
  next
    case EvClose
    with st have "sys' = sys\<lparr>sys_sub := Close (sys_sub sys)\<rparr>" by (simp add: sys_step_def)
    then show ?thesis by (simp add: Close_def)
  qed
qed

lemma run_sys_undisturbed:
  assumes "run_sys sys evs = Some sys'" "\<forall>ev \<in> set evs. \<not> is_publish ev"
    "isClosed (sys_sub sys) \<or> undisturbed sys"
  shows "isClosed (sys_sub sys') \<or> undisturbed sys'"
  using assms
proof (induction evs arbitrary: sys)
  case Nil
  then show ?case by simp
next
  case (Cons ev evs)
  from Cons.prems(1) obtain sys1 where st: "sys_step sys ev = Some sys1"
    and run: "run_sys sys1 evs = Some sys'"
    by (auto split: option.splits)
  from Cons.prems(2) have np: "\<not> is_publish ev" and nps: "\<forall>ev \<in> set evs. \<not> is_publish ev"
    by simp_all
  from Cons.IH [OF run nps sys_step_undisturbed [OF st np Cons.prems(3)]] show ?case .
qed

lemma replay_never_blocked:
  assumes "\<not> isClosed (sys_sub sys)" "\<forall>r. sys_replay sys \<noteq> ReplayReturned r"
  shows "\<exists>sys'. sys_step sys EvReplay = Some sys'"
proof (cases "sys_replay sys")
  case (ReplayNext ms)
  then show ?thesis by (cases ms) (simp_all add: sys_step_def replay_step_def)
next
  case (ReplaySending pc msg ms)
  then show ?thesis using assms(1)
    by (cases pc)
       (auto simp: sys_step_def replay_step_def send_op_def split: option.splits list.splits)
next
  case (ReplayReturned r)
  with assms(2) show ?thesis by simp
qed

lemma ring_GetLast_50:
  assumes "ring_inv N c ms"
  shows "GetLast c 50 = Inr (recent_window N ms)"
proof -
  from assms have N: "0 < N" and cnt: "count_rc c = min (int (length ms)) N"
    by (auto simp: ring_inv_def)
  have "nat (min 50 (count_rc c)) = min 50 (min (length ms) (nat N))"
    unfolding cnt using N by linarith
  then show ?thesis using ring_GetLast [OF assms, of 50] by (simp add: recent_window_def)
qed

lemma length_recent_window: "length (recent_window N ms) = min 50 (min (length ms) (nat N))"
  by (simp add: recent_window_def)

lemma example_topic_made:
  "NewTopic ''topic'' ''tenant-a'' 3 0 = Inr empty_topic \<and>
   publish_all empty_topic [msg1, msg2] = Inr two_message_topic"
  by (simp add: NewTopic_def NewRecentMessageCache_def empty_topic_def two_message_topic_def
      Publish_def Add_def go_mod_def go_div_def Let_def numeral_3_eq_3)

lemma SendMessages_drop_oldest:
  assumes "dropStrategy s = DROP_OLDEST" "\<not> isClosed s" "1 \<le> chanCap s"
    "length (messageChan s) \<le> chanCap s"
  shows "SendMessages s m =
     Inr (s\<lparr>messagesRecieved := messagesRecieved s + 1,
             messageChan := drop (length (messageChan s) + 1 - chanCap s) (messageChan s @ [m]),
             droppedCount := droppedCount s + of_nat (length (messageChan s) + 1 - chanCap s)\<rparr>,
          None)"
proof (cases "length (messageChan s) < chanCap s")
  case True
  then show ?thesis using assms by (simp add: SendMessages_def Let_def)
next
  case False
  with assms have len: "length (messageChan s) = chanCap s" by simp
  with assms(3) obtain m0 rest where mc: "messageChan s = m0 # rest"
    by (cases "messageChan s") auto
  show ?thesis using assms len mc
    by (simp add: SendMessages_def handleBackPressure_def Let_def)
qed

lemma drop_append_le: "k \<le> length xs \<Longrightarrow> drop k xs @ ys = drop k (xs @ ys)"
  by simp

lemma send_recent_loop_drop_oldest:
  assumes "dropStrategy s = DROP_OLDEST" "\<not> isClosed s" "1 \<le> chanCap s"
    "length (messageChan s) \<le> chanCap s"
  shows "send_recent_loop s ms =
     Inr (s\<lparr>messagesRecieved := messagesRecieved s + of_nat (length ms),
             messageChan := drop (length (messageChan s) + length ms - chanCap s) (messageChan s @ ms),
             droppedCount := droppedCount s + of_nat (length (messageChan s) + length ms - chanCap s)\<rparr>)"
  using assms
proof (induction ms arbitrary: s)
  case Nil
  then show ?case by simp
next
  case (Cons m ms)
  let ?k = "length (messageChan s) + 1 - chanCap s"
  let ?s1 = "s\<lparr>messagesRecieved := messagesRecieved s + 1,
             messageChan := drop ?k (messageChan s @ [m]),
             droppedCount := droppedCount s + of_nat ?k\<rparr>"
  have step: "SendMessages s m = Inr (?s1, None)"
    using SendMessages_drop_oldest [OF Cons.prems] .
  have len1: "length (messageChan ?s1) = length (messageChan s) + 1 - ?k" by simp
  have pre: "dropStrategy ?s1 = DROP_OLDEST" "\<not> isClosed ?s1" "1 \<le> chanCap ?s1"
    "length (messageChan ?s1) \<le> chanCap ?s1"
    using Cons.prems by auto
  note ih = Cons.IH [OF pre]
  have k: "?k \<le> length (messageChan s @ [m])" by simp
  have e1: "drop ?k (messageChan s @ [m]) @ ms = drop ?k (messageChan s @ m # ms)"
    using drop_append_le [OF k, of ms] by (simp only: append_assoc append_Cons append_Nil)
  let ?a = "length (messageChan ?s1) + length ms - chanCap ?s1"
  have sum: "?a + ?k = length (messageChan s) + length (m # ms) - chanCap s"
    using Cons.prems(3,4) by auto
  have mc: "drop ?a (messageChan ?s1 @ ms) =
      drop (length (messageChan s) + length (m # ms) - chanCap s) (messageChan s @ m # ms)"
  proof -
    have "drop ?a (messageChan ?s1 @ ms) = drop ?a (drop ?k (messageChan s @ m # ms))"
      using e1 by simp
    also have "\<dots> = drop (?a + ?k) (messageChan s @ m # ms)" by (simp only: drop_drop)
    finally show ?thesis using sum by (simp only:)
  qed
  have dc: "droppedCount ?s1 + of_nat ?a =
      droppedCount s + of_nat (length (messageChan s) + length (m # ms) - chanCap s)"
  proof -
    have "droppedCount ?s1 + of_nat ?a = droppedCount s + (of_nat (?a + ?k) :: 64 word)"
      by (simp only: of_nat_add) (simp add: algebra_simps)
    then show ?thesis using sum by (simp only:)
  qed
  have rc: "messagesRecieved ?s1 + of_nat (length ms) =
      messagesRecieved s + of_nat (length (m # ms))"
    by (simp add: algebra_simps)
  have "send_recent_loop s (m # ms) = send_recent_loop ?s1 ms" using step by simp
  also have "\<dots> = Inr (?s1\<lparr>messagesRecieved := messagesRecieved ?s1 + of_nat (length ms),
             messageChan := drop ?a (messageChan ?s1 @ ms),
             droppedCount := droppedCount ?s1 + of_nat ?a\<rparr>)"
    using ih .
  also have "\<dots> = Inr (s\<lparr>messagesRecieved := messagesRecieved s + of_nat (length (m # ms)),
             messageChan := drop (length (messageChan s) + length (m # ms) - chanCap s) (messageChan s @ m # ms),
             droppedCount := droppedCount s + of_nat (length (messageChan s) + length (m # ms) - chanCap s)\<rparr>)"
    unfolding mc dc rc by simp
  finally show ?case .
qed

lemma send_op_rank:
  "send_op s pc m = Some (Inr (s', pc')) \<Longrightarrow> send_rank pc' < send_rank pc"
  by (cases pc; cases "dropStrategy s")
     (auto simp: send_op_def send_rank_def split: if_splits list.splits)

lemma replay_step_decreases:
  assumes "sys_step sys EvReplay = Some sys' \<or> sys_step sys EvReplayHandOff = Some sys'"
  shows "replay_steps_left (sys_replay sys') < replay_steps_left (sys_replay sys)"
  using assms
proof
  assume "sys_step sys EvReplay = Some sys'"
  then have rs: "replay_step sys = Some sys'" by (simp add: sys_step_def)
  show ?thesis
  proof (cases "sys_replay sys")
    case (ReplayNext ms)
    with rs show ?thesis
      by (cases ms) (auto simp: replay_step_def replay_steps_left_def send_rank_def)
  next
    case (ReplayReturned r)
    with rs show ?thesis by (simp add: replay_step_def)
  next
    case (ReplaySending pc msg ms)
    show ?thesis
    proof (cases "\<exists>r. pc = SendDone r")
      case True
      with rs ReplaySending show ?thesis
        by (auto simp: replay_step_def replay_steps_left_def send_rank_def split: option.splits)
    next
      case False
      with rs ReplaySending obtain s' pc' where
        op: "send_op (sys_sub sys) pc msg = Some (Inr (s', pc'))"
        and sys': "sys_replay sys' = ReplaySending pc' msg ms"
        by (cases pc) (auto simp: replay_step_def split: option.splits sum.splits)
      from send_op_rank [OF op] show ?thesis
        by (simp add: replay_steps_left_def sys' ReplaySending)
    qed
  qed
next
  assume "sys_step sys EvReplayHandOff = Some sys'"
  then show ?thesis
    by (auto simp: sys_step_def hand_off_ready_def replay_steps_left_def send_rank_def
        split: replay_pc.splits if_splits)
qed

lemma sys_step_steps_left:
  assumes "sys_step sys ev = Some sys'"
  shows "replay_steps_left (sys_replay sys') \<le> replay_steps_left (sys_replay sys)"
proof (cases "ev = EvReplay \<or> ev = EvReplayHandOff")
  case True
  with assms replay_step_decreases [of sys sys'] show ?thesis by auto
next
  case False
  with assms have "sys_replay sys' = sys_replay sys"
    by (cases ev) (auto simp: sys_step_def split: if_splits prod.splits option.splits sum.splits)
  then show ?thesis by simp
qed

lemma run_sys_steps_left:
  "run_sys sys evs = Some sys' \<Longrightarrow>
     replay_steps_left (sys_replay sys') \<le> replay_steps_left (sys_replay sys)"
proof (induction evs arbitrary: sys)
  case Nil
  then show ?case by simp
next
  case (Cons ev evs)
  from Cons.prems obtain sys1 where st: "sys_step sys ev = Some sys1"
    and run: "run_sys sys1 evs = Some sys'"
    by (auto split: option.splits)
  from Cons.IH [OF run] sys_step_steps_left [OF st] show ?case by simp
qed

lemma start_sys_replay_inv: "replay_inv recent (start_sys s recent)"
  by (simp add: replay_inv_def replay_progress_def start_sys_def)

lemma start_sys_undisturbed:
  assumes "dropStrategy s = DROP_OLDEST" "1 \<le> chanCap s" "length (messageChan s) \<le> chanCap s"
  shows "undisturbed (start_sys s recent)"
  using assms by (simp add: undisturbed_def steady_replay_def start_sys_def)

text \<open>
  C8, as stated, fails when a call of the replay returns an error: the loop of
  \<open>sendRecentMessages\<close> returns at the first one. The topic holds 2 messages and a
  subscriber that \<open>NewSubscriber\<close> made with buffer size 1 subscribes; \<open>Subscribe\<close> returns
  no error. The replay puts the first message into the inbox, finds the inbox full for
  the second and takes the oldest message out of it. Before it sends again, the fan-out
  of a \<open>Publish\<close> of a third message puts that message into the free place. The replay
  finds the inbox full once more, counts a second drop and returns with the error: it
  has enqueued 1 message and not \<open>min 50 2 = 2\<close>. The same interleaving exists for every
  capacity, once the inbox is full.

  The last run shows why the amended statement leaves \<open>CIRCUIT_BREAKER\<close> subscribers out
  (values of the type only: the program makes none): there the second call returns no
  error and the replay returns at the end of its loop, and yet the second message was
  discarded.
\<close>

theorem catch_up_counterexample:
  "NewTopic ''topic'' ''tenant-a'' 3 0 = Inr empty_topic \<and>
   publish_all empty_topic [msg1, msg2] = Inr two_message_topic \<and>
   GetCount (recentCache two_message_topic) = 2 \<and>
   GetLast (recentCache two_message_topic) 50 = Inr [msg1, msg2] \<and>
   NewSubscriber ''sub-1'' ''tenant-a'' ''topic'' 1 0 = Inr (fresh_sub 1) \<and>
   Subscribe_call two_message_topic (fresh_sub 1) =
     (two_message_topic\<lparr>subscribers := [(''sub-1'', fresh_sub 1)], totalSubscribers := 1\<rparr>, None) \<and>
   run_sys (start_sys (fresh_sub 1) [msg1, msg2])
       [EvReplay, EvReplay, EvReplay, EvReplay, EvReplay, EvReplay, EvReplay, EvReplay,
        EvPublish msg3, EvSend 0, EvSend 0,
        EvReplay, EvReplay, EvReplay, EvReplay] =
     Some \<lparr>sys_sub = (fresh_sub 1)\<lparr>messageChan := [msg3], messagesRecieved := 3,
                                    droppedCount := 2\<rparr>,
           sys_loop = LoopSelect,
           sys_sends = [(SendDone None, msg3)],
           sys_replay = ReplayReturned (Some BufferStillFull),
           replay_log = [msg1]\<rparr> \<and>
   run_sys (start_sys ((fresh_sub 1)\<lparr>dropStrategy := CIRCUIT_BREAKER\<rparr>) [msg1, msg2])
       [EvReplay, EvReplay, EvReplay, EvReplay, EvReplay, EvReplay, EvReplay, EvReplay,
        EvReplay, EvReplay, EvReplay] =
     Some \<lparr>sys_sub = (fresh_sub 1)\<lparr>dropStrategy := CIRCUIT_BREAKER, messageChan := [msg1],
                                    messagesRecieved := 2\<rparr>,
           sys_loop = LoopSelect, sys_sends = [],
           sys_replay = ReplayReturned None, replay_log = [msg1]\<rparr>"
proof -
  have a: "GetLast (recentCache two_message_topic) 50 = Inr [msg1, msg2]"
    by (simp add: two_message_topic_def GetLast_def go_mod_def go_div_def Let_def numeral_2_eq_2)
  have b: "Subscribe_call two_message_topic (fresh_sub 1) =
     (two_message_topic\<lparr>subscribers := [(''sub-1'', fresh_sub 1)], totalSubscribers := 1\<rparr>, None)"
    by (simp add: Subscribe_call_def two_message_topic_def fresh_sub_def Let_def)
  have c: "run_sys (start_sys (fresh_sub 1) [msg1, msg2])
       [EvReplay, EvReplay, EvReplay, EvReplay, EvReplay, EvReplay, EvReplay, EvReplay,
        EvPublish msg3, EvSend 0, EvSend 0,
        EvReplay, EvReplay, EvReplay, EvReplay] =
     Some \<lparr>sys_sub = (fresh_sub 1)\<lparr>messageChan := [msg3], messagesRecieved := 3,
                                    droppedCount := 2\<rparr>,
           sys_loop = LoopSelect,
           sys_sends = [(SendDone None, msg3)],
           sys_replay = ReplayReturned (Some BufferStillFull),
           replay_log = [msg1]\<rparr>"
    by (simp add: fresh_sub_def start_sys_def sys_step_def replay_step_def send_op_def
        enqueues_def)
  have d: "GetCount (recentCache two_message_topic) = 2"
    by (simp add: two_message_topic_def GetCount_def)
  have e: "run_sys (start_sys ((fresh_sub 1)\<lparr>dropStrategy := CIRCUIT_BREAKER\<rparr>) [msg1, msg2])
       [EvReplay, EvReplay, EvReplay, EvReplay, EvReplay, EvReplay, EvReplay, EvReplay,
        EvReplay, EvReplay, EvReplay] =
     Some \<lparr>sys_sub = (fresh_sub 1)\<lparr>dropStrategy := CIRCUIT_BREAKER, messageChan := [msg1],
                                    messagesRecieved := 2\<rparr>,
           sys_loop = LoopSelect, sys_sends = [],
           sys_replay = ReplayReturned None, replay_log = [msg1]\<rparr>"
    by (simp add: fresh_sub_def start_sys_def sys_step_def replay_step_def send_op_def
        enqueues_def word_sless_alt)
  show ?thesis using example_topic_made NewSubscriber_fresh [of 1] a b c d e by simp
qed

text \<open>
  C8, amended. The topic's cache of capacity \<open>N\<close> has received the messages \<open>ms\<close> when the
  replay reads it, so that it holds \<open>count = min (length ms) N\<close> of them, and the
  subscriber is open, of the topic's tenant, and not a \<open>CIRCUIT_BREAKER\<close> one. Then:
  \<^item> the replay reads the last \<open>min 50 count\<close> messages, in the order in which they were
    added;
  \<^item> \<open>Topic.Subscribe\<close> returns no error, and so does the schedule in which the replay runs
    alone: there the inbox ends as its old content followed by the replayed messages when
    it has room for them, and for a \<open>DROP_OLDEST\<close> subscriber with a buffered channel all
    \<open>min 50 count\<close> calls succeed and the inbox ends as the last \<open>chanCap\<close> messages of its
    old content followed by the replayed ones;
  \<^item> in every interleaving, at every moment, the messages that the replay has put into the
    inbox are the messages before the one it is sending, in order: all of them when it
    has returned at the end of its loop, and not the one whose call returned an error,
    nor those after it, when it has returned at the error;
  \<^item> the replay is never blocked while the subscriber is open, and it returns after at most
    \<open>9 * min 50 count + 1\<close> operations of its own: each of them lowers
    \<open>replay_steps_left\<close>, which never exceeds that bound;
  \<^item> for a \<open>DROP_OLDEST\<close> subscriber with a buffered channel the replay meets no error, so
    that it enqueues exactly \<open>min 50 count\<close> messages, as long as no call of the fan-out
    runs beside it and the subscriber is not closed.
\<close>

theorem catch_up_amended:
  assumes "0 < N" "NewRecentMessageCache N = Inr c0" "add_all c0 ms = Inr (recentCache t)"
    "tenantID t = SubTenantID sub" "\<not> isClosed sub" "dropStrategy sub \<noteq> CIRCUIT_BREAKER"
    "run_sys (start_sys sub (recent_window N ms)) evs = Some sys'"
  shows "GetLast (recentCache t) 50 = Inr (recent_window N ms) \<and>
     length (recent_window N ms) = min 50 (nat (count_rc (recentCache t))) \<and>
     snd (Subscribe_call t sub) = None \<and>
     (\<exists>t' sub'.
        Subscribe t sub = Inr (t', None) \<and> map_of (subscribers t') (ID sub) = Some sub' \<and>
        (length (messageChan sub) + min 50 (nat (count_rc (recentCache t))) \<le> chanCap sub \<longrightarrow>
           messageChan sub' = messageChan sub @ recent_window N ms) \<and>
        (dropStrategy sub = DROP_OLDEST \<and> 1 \<le> chanCap sub \<and>
         length (messageChan sub) \<le> chanCap sub \<longrightarrow>
           messagesRecieved sub' =
             messagesRecieved sub + of_nat (min 50 (nat (count_rc (recentCache t)))) \<and>
           messageChan sub' =
             drop (length (messageChan sub) + min 50 (nat (count_rc (recentCache t))) - chanCap sub)
               (messageChan sub @ recent_window N ms))) \<and>
     (\<forall>rest. sys_replay sys' = ReplayNext rest \<longrightarrow>
        recent_window N ms = replay_log sys' @ rest) \<and>
     (\<forall>pc msg rest. sys_replay sys' = ReplaySending pc msg rest \<longrightarrow>
        recent_window N ms =
          (if pc = SendDone None then replay_log sys' @ rest else replay_log sys' @ msg # rest)) \<and>
     (sys_replay sys' = ReplayReturned None \<longrightarrow> replay_log sys' = recent_window N ms) \<and>
     (\<forall>e. sys_replay sys' = ReplayReturned (Some e) \<longrightarrow>
        (\<exists>msg rest. recent_window N ms = replay_log sys' @ msg # rest)) \<and>
     (\<not> isClosed (sys_sub sys') \<and> (\<forall>r. sys_replay sys' \<noteq> ReplayReturned r) \<longrightarrow>
        (\<exists>sys''. sys_step sys' EvReplay = Some sys'')) \<and>
     (dropStrategy sub = DROP_OLDEST \<and> 1 \<le> chanCap sub \<and>
      length (messageChan sub) \<le> chanCap sub \<and>
      (\<forall>ev \<in> set evs. \<not> is_publish ev) \<and> \<not> isClosed (sys_sub sys') \<longrightarrow>
        (\<forall>e. sys_replay sys' \<noteq> ReplayReturned (Some e))) \<and>
     replay_steps_left (sys_replay sys') \<le> 9 * min 50 (nat (count_rc (recentCache t))) + 1 \<and>
     (\<forall>sys''. sys_step sys' EvReplay = Some sys'' \<or> sys_step sys' EvReplayHandOff = Some sys'' \<longrightarrow>
        replay_steps_left (sys_replay sys'') < replay_steps_left (sys_replay sys'))"
proof -
  let ?W = "recent_window N ms"
  let ?n = "min 50 (nat (count_rc (recentCache t)))"
  have r0: "ring_inv N c0 []" using ring_New [OF assms(1,2)] .
  from ring_add_all [OF r0, of ms] assms(3) have r: "ring_inv N (recentCache t) ms" by simp
  then have cnt: "count_rc (recentCache t) = min (int (length ms)) N" by (simp add: ring_inv_def)
  have n: "?n = length ?W"
    unfolding cnt length_recent_window using assms(1) by linarith
  have c1: "GetLast (recentCache t) 50 = Inr ?W" using ring_GetLast_50 [OF r] .
  have c3: "snd (Subscribe_call t sub) = None"
    using assms(4) by (simp add: Subscribe_call_def Let_def)
  let ?t2 = "t\<lparr>subscribers := AList.update (ID sub) sub (subscribers t),
                totalSubscribers := totalSubscribers t + 1\<rparr>"
  have recent: "sendRecentMessages ?t2 sub = send_recent_loop sub ?W"
    using c1 by (simp add: sendRecentMessages_def)
  from send_recent_loop_inbox [OF assms(5), of ?W] obtain sub' where
    loop: "send_recent_loop sub ?W = Inr sub'" by blast
  let ?t' = "?t2\<lparr>subscribers := AList.update (ID sub) sub' (subscribers ?t2)\<rparr>"
  have res: "Subscribe t sub = Inr (?t', None)"
    using assms(4) recent loop by (simp add: Subscribe_def Let_def)
  have look: "map_of (subscribers ?t') (ID sub) = Some sub'"
    by (simp add: update_conv')
  have room: "messageChan sub' = messageChan sub @ ?W"
    if "length (messageChan sub) + ?n \<le> chanCap sub"
    using send_recent_loop_room [OF assms(5), of ?W] that loop n by simp
  have oldest: "messagesRecieved sub' = messagesRecieved sub + of_nat ?n \<and>
      messageChan sub' = drop (length (messageChan sub) + ?n - chanCap sub) (messageChan sub @ ?W)"
    if "dropStrategy sub = DROP_OLDEST \<and> 1 \<le> chanCap sub \<and> length (messageChan sub) \<le> chanCap sub"
  proof -
    from that have "dropStrategy sub = DROP_OLDEST" "1 \<le> chanCap sub"
      "length (messageChan sub) \<le> chanCap sub" by simp_all
    from send_recent_loop_drop_oldest [OF this(1) assms(5) this(2,3), of ?W] loop
    show ?thesis unfolding n by auto
  qed
  have c4: "\<exists>t' sub'.
        Subscribe t sub = Inr (t', None) \<and> map_of (subscribers t') (ID sub) = Some sub' \<and>
        (length (messageChan sub) + ?n \<le> chanCap sub \<longrightarrow>
           messageChan sub' = messageChan sub @ ?W) \<and>
        (dropStrategy sub = DROP_OLDEST \<and> 1 \<le> chanCap sub \<and>
         length (messageChan sub) \<le> chanCap sub \<longrightarrow>
           messagesRecieved sub' = messagesRecieved sub + of_nat ?n \<and>
           messageChan sub' =
             drop (length (messageChan sub) + ?n - chanCap sub) (messageChan sub @ ?W))"
    using res look room oldest by blast
  have strat: "dropStrategy (sys_sub (start_sys sub ?W)) \<noteq> CIRCUIT_BREAKER"
    using assms(6) by (simp add: start_sys_def)
  have ri: "replay_progress ?W (sys_replay sys') (replay_log sys')"
    using run_sys_replay_inv [OF assms(7) strat start_sys_replay_inv]
    by (simp add: replay_inv_def)
  have c5: "\<forall>rest. sys_replay sys' = ReplayNext rest \<longrightarrow> ?W = replay_log sys' @ rest"
    using ri by (auto simp: replay_progress_def)
  have c6: "\<forall>pc msg rest. sys_replay sys' = ReplaySending pc msg rest \<longrightarrow>
        ?W = (if pc = SendDone None then replay_log sys' @ rest else replay_log sys' @ msg # rest)"
    using ri by (auto simp: replay_progress_def)
  have c7: "sys_replay sys' = ReplayReturned None \<longrightarrow> replay_log sys' = ?W"
    using ri by (auto simp: replay_progress_def)
  have c8: "\<forall>e. sys_replay sys' = ReplayReturned (Some e) \<longrightarrow>
        (\<exists>msg rest. ?W = replay_log sys' @ msg # rest)"
    using ri by (auto simp: replay_progress_def)
  have c9: "\<not> isClosed (sys_sub sys') \<and> (\<forall>r. sys_replay sys' \<noteq> ReplayReturned r) \<longrightarrow>
        (\<exists>sys''. sys_step sys' EvReplay = Some sys'')"
    using replay_never_blocked [of sys'] by blast
  have c10: "\<forall>e. sys_replay sys' \<noteq> ReplayReturned (Some e)"
    if h: "dropStrategy sub = DROP_OLDEST \<and> 1 \<le> chanCap sub \<and>
      length (messageChan sub) \<le> chanCap sub \<and>
      (\<forall>ev \<in> set evs. \<not> is_publish ev) \<and> \<not> isClosed (sys_sub sys')"
  proof -
    from h have u0: "undisturbed (start_sys sub ?W)"
      by (intro start_sys_undisturbed) simp_all
    from h have np: "\<forall>ev \<in> set evs. \<not> is_publish ev" by simp
    from run_sys_undisturbed [OF assms(7) np] u0 h have "undisturbed sys'" by blast
    then show ?thesis by (auto simp: undisturbed_def steady_replay_def)
  qed
  have c11: "replay_steps_left (sys_replay sys') \<le> 9 * ?n + 1"
    using run_sys_steps_left [OF assms(7)] n
    by (simp add: start_sys_def replay_steps_left_def)
  have c12: "\<forall>sys''. sys_step sys' EvReplay = Some sys'' \<or>
        sys_step sys' EvReplayHandOff = Some sys'' \<longrightarrow>
        replay_steps_left (sys_replay sys'') < replay_steps_left (sys_replay sys')"
    using replay_step_decreases by blast
  have c10': "dropStrategy sub = DROP_OLDEST \<and> 1 \<le> chanCap sub \<and>
      length (messageChan sub) \<le> chanCap sub \<and>
      (\<forall>ev \<in> set evs. \<not> is_publish ev) \<and> \<not> isClosed (sys_sub sys') \<longrightarrow>
        (\<forall>e. sys_replay sys' \<noteq> ReplayReturned (Some e))"
    using c10 by blast
  show ?thesis
    apply (intro conjI)
    apply (rule c1)
    apply (rule n [symmetric])
    apply (rule c3)
    apply (rule c4)
    apply (rule c5)
    apply (rule c6)
    apply (rule c7)
    apply (rule c8)
    apply (rule c9)
    apply (rule c10')
    apply (rule c11)
    apply (rule c12)
    done
qed

theorem catch_up_amended_witness:
  "run_sys (start_sys (fresh_sub 1) [msg1, msg2])
       [EvReplay, EvReplay, EvReplay, EvReplay, EvReplay, EvReplay, EvReplay, EvReplay,
        EvReplay, EvReplay, EvReplay, EvReplay] =
     Some \<lparr>sys_sub = (fresh_sub 1)\<lparr>messageChan := [msg2], messagesRecieved := 2,
                                    droppedCount := 1\<rparr>,
           sys_loop = LoopSelect, sys_sends = [],
           sys_replay = ReplayReturned None, replay_log = [msg1, msg2]\<rparr> \<and>
   GetLast (recentCache two_message_topic) 50 = Inr [msg1, msg2] \<and>
   (\<exists>t' sub'. Subscribe two_message_topic (fresh_sub 1) = Inr (t', None) \<and>
      map_of (subscribers t') ''sub-1'' = Some sub' \<and>
      messagesRecieved sub' = 2 \<and> messageChan sub' = [msg2])"
proof -
  let ?evs = "[EvReplay, EvReplay, EvReplay, EvReplay, EvReplay, EvReplay, EvReplay, EvReplay,
        EvReplay, EvReplay, EvReplay, EvReplay]"
  let ?sys' = "\<lparr>sys_sub = (fresh_sub 1)\<lparr>messageChan := [msg2], messagesRecieved := 2,
                                    droppedCount := 1\<rparr>,
           sys_loop = LoopSelect, sys_sends = [],
           sys_replay = ReplayReturned None, replay_log = [msg1, msg2]\<rparr>"
  have h1: "(0::int) < 3" by simp
  have h2: "NewRecentMessageCache 3 = Inr (recentCache empty_topic)"
    by (simp add: NewRecentMessageCache_def empty_topic_def numeral_3_eq_3)
  have h3: "add_all (recentCache empty_topic) [msg1, msg2] = Inr (recentCache two_message_topic)"
    by (simp add: empty_topic_def two_message_topic_def Add_def go_mod_def go_div_def Let_def)
  have h4: "tenantID two_message_topic = SubTenantID (fresh_sub 1)"
    by (simp add: two_message_topic_def fresh_sub_def)
  have h5: "\<not> isClosed (fresh_sub 1)" by (simp add: fresh_sub_def)
  have h6: "dropStrategy (fresh_sub 1) \<noteq> CIRCUIT_BREAKER" by (simp add: fresh_sub_def)
  have w: "recent_window 3 [msg1, msg2] = [msg1, msg2]" by (simp add: recent_window_def)
  have h7: "run_sys (start_sys (fresh_sub 1) (recent_window 3 [msg1, msg2])) ?evs = Some ?sys'"
    unfolding w
    by (simp add: fresh_sub_def start_sys_def sys_step_def replay_step_def send_op_def
        enqueues_def)
  have cnt: "count_rc (recentCache two_message_topic) = 2" by (simp add: two_message_topic_def)
  have pre: "dropStrategy (fresh_sub 1) = DROP_OLDEST \<and> 1 \<le> chanCap (fresh_sub 1) \<and>
     length (messageChan (fresh_sub 1)) \<le> chanCap (fresh_sub 1)"
    by (simp add: fresh_sub_def)
  have idw: "ID (fresh_sub 1) = ''sub-1''" "messageChan (fresh_sub 1) = []"
    "chanCap (fresh_sub 1) = 1" "messagesRecieved (fresh_sub 1) = 0"
    by (simp_all add: fresh_sub_def)
  from catch_up_amended [OF h1 h2 h3 h4 h5 h6 h7] pre h7
  show ?thesis unfolding w cnt idw by auto
qed


text \<open>
  C1. The failing input: tenant \<open>a:b\<close> has a subscriber on its topic \<open>c\<close>, and tenant \<open>a\<close>
  publishes a message of its own to its topic \<open>b:c\<close>. Both topics have the key \<open>a:b:c\<close>,
  so \<open>TopicManager.Publish\<close> finds the topic of tenant \<open>a:b\<close>, and neither it nor
  \<open>Topic.Publish\<close> compares the tenant of the message with that of the topic. Both calls
  return no error, a single topic exists, and the inbox of the subscriber of tenant
  \<open>a:b\<close> holds the message of tenant \<open>a\<close>.
\<close>

theorem tenant_isolation_broken:
  "NewSubscriber ''s1'' ''a:b'' ''c'' 100 0 = Inr tenant_ab_sub \<and>
   TenantID tenant_a_msg = ''a'' \<and>
   (case TM_Subscribe (NewTopicManager (NewAdaptiveBufferManager 2147483648)
                         (NewAdaptiveThrottler DefaultConfig 0))
           ''a:b'' ''c'' ''s1'' tenant_ab_sub 1 of
      Inl p \<Rightarrow> None
    | Inr (tm1, err1) \<Rightarrow>
        (case TM_Publish tm1 ''a'' ''b:c'' tenant_a_msg 2 of
           Inl p \<Rightarrow> None
         | Inr (tm2, err2) \<Rightarrow>
             Some (err1, err2, map fst (topics tm2),
                   map_option (\<lambda>s. (SubTenantID s, messageChan s))
                     (subscriber_of tm2 ''a:b:c'' ''s1''))))
   = Some (None, None, [''a:b:c''], Some (''a:b'', [tenant_a_msg]))"
  by (simp add: NewSubscriber_def tenant_ab_sub_def fresh_sub_def tenant_a_msg_def
      TM_Subscribe_def TM_Publish_def getOrCreateTopic_def makeTopicKey_def NewTopicManager_def
      NewTopic_def NewRecentMessageCache_def Subscribe_def sendRecentMessages_def GetLast_def
      Publish_def Add_def go_mod_def go_div_def SendMessages_def subscriber_of_def Let_def)


end
